theory Spec2Isabelle
  imports Complex_Main
begin

section \<open>Strings\<close>

text \<open>
  A JavaScript string is a sequence of UTF-16 code units. The code below reads strings
  through \<^verbatim>\<open>charCodeAt\<close>, \<^verbatim>\<open>split("")\<close>, \<^verbatim>\<open>trim\<close> and regular
  expressions without the \<^verbatim>\<open>u\<close> flag, all of which work on code units, so a string
  is modelled as the list of its code units.
\<close>

type_synonym jchar = nat
type_synonym jstring = "jchar list"

definition ascii :: "string \<Rightarrow> jstring" where
  "ascii s = map of_char s"

text \<open>
  \<^verbatim>\<open>String.prototype.trim\<close> removes WhiteSpace and LineTerminator code points
  (ECMA-262, sections 12.2 and 12.3).
\<close>

definition isJsSpace :: "jchar \<Rightarrow> bool" where
  "isJsSpace c \<longleftrightarrow>
     c = 0x9 \<or> c = 0xA \<or> c = 0xB \<or> c = 0xC \<or> c = 0xD \<or> c = 0x20 \<or> c = 0xA0 \<or>
     c = 0x1680 \<or> (0x2000 \<le> c \<and> c \<le> 0x200A) \<or> c = 0x2028 \<or> c = 0x2029 \<or>
     c = 0x202F \<or> c = 0x205F \<or> c = 0x3000 \<or> c = 0xFEFF"

definition trimStart :: "jstring \<Rightarrow> jstring" where
  "trimStart s = dropWhile isJsSpace s"

definition trimEnd :: "jstring \<Rightarrow> jstring" where
  "trimEnd s = rev (dropWhile isJsSpace (rev s))"

definition trim :: "jstring \<Rightarrow> jstring" where
  "trim s = trimEnd (trimStart s)"

section \<open>Numbers\<close>

text \<open>
  A number of JavaScript is an IEEE 754 double. A finite double is represented by the
  rational number it denotes, and \<open>fl\<close> rounds a rational number to the nearest double,
  a tie going to the even significand: \<^verbatim>\<open>x / y\<close> of the source is \<open>fl (x / y)\<close>, and so
  for \<^verbatim>\<open>+\<close> and \<^verbatim>\<open>-\<close>; a decimal literal \<^verbatim>\<open>0.92\<close> is \<open>fl 0.92\<close>. The significand has
  53 bits. The range of the exponent is not modelled: the scores computed below lie
  between \<open>2^-53 / n\<close> and \<open>n\<close> for a pattern of \<open>n\<close> lines of fewer than \<open>2^53\<close> code units
  each, far from overflow and underflow. Lengths and indices are natural numbers, which
  doubles hold exactly below \<open>2^53\<close>.
\<close>

type_synonym double = rat

text \<open>The number of binary digits of a natural number.\<close>

fun bitLength :: "nat \<Rightarrow> nat" where
  "bitLength n = (if n = 0 then 0 else Suc (bitLength (n div 2)))"

declare bitLength.simps [simp del]

text \<open>The binary exponent of a positive number \<open>x\<close>: the \<open>e\<close> with \<open>2^e \<le> x < 2^(e+1)\<close>.\<close>

definition floorLog2 :: "rat \<Rightarrow> int" where
  "floorLog2 x =
     (if 1 \<le> x then int (bitLength (nat \<lfloor>x\<rfloor>)) - 1
      else - int (bitLength (nat (\<lceil>1 / x\<rceil> - 1))))"

definition roundHalfEven :: "rat \<Rightarrow> int" where
  "roundHalfEven m =
     (if m - of_int \<lfloor>m\<rfloor> < 1 / 2 then \<lfloor>m\<rfloor>
      else if 1 / 2 < m - of_int \<lfloor>m\<rfloor> then \<lfloor>m\<rfloor> + 1
      else if even \<lfloor>m\<rfloor> then \<lfloor>m\<rfloor> else \<lfloor>m\<rfloor> + 1)"

text \<open>The distance between neighbouring doubles around a positive number \<open>x\<close>.\<close>

definition ulp :: "rat \<Rightarrow> rat" where
  "ulp x = 2 powi (floorLog2 x - 52)"

definition flPos :: "rat \<Rightarrow> double" where
  "flPos x = of_int (roundHalfEven (x / ulp x)) * ulp x"

definition fl :: "rat \<Rightarrow> double" where
  "fl x = (if x = 0 then 0 else if 0 < x then flPos x else - flPos (- x))"


section \<open>Sequence matcher (seek-sequence.ts)\<close>

record SeekSequenceResult =
  index :: "nat option"
  confidence :: double

definition normalizeUnicodeChar :: "jchar \<Rightarrow> jchar" where
  "normalizeUnicodeChar code =
     (if code = 0x2010 \<or> code = 0x2011 \<or> code = 0x2012 \<or> code = 0x2013 \<or>
         code = 0x2014 \<or> code = 0x2015 \<or> code = 0x2212 then 0x2D
      else if code = 0x2018 \<or> code = 0x2019 \<or> code = 0x201A \<or> code = 0x201B then 0x27
      else if code = 0x201C \<or> code = 0x201D \<or> code = 0x201E \<or> code = 0x201F then 0x22
      else if code = 0x00A0 \<or> code = 0x2002 \<or> code = 0x2003 \<or> code = 0x2004 \<or>
              code = 0x2005 \<or> code = 0x2006 \<or> code = 0x2007 \<or> code = 0x2008 \<or>
              code = 0x2009 \<or> code = 0x200A \<or> code = 0x202F \<or> code = 0x205F \<or>
              code = 0x3000 then 0x20
      else code)"

definition normalizeUnicode :: "jstring \<Rightarrow> jstring" where
  "normalizeUnicode s = map normalizeUnicodeChar (trim s)"

text \<open>
  \<^verbatim>\<open>normalizeFuzzyText\<close>: three global replacements of a character class by one
  character, applied one after the other. The classes are those of the source file.
\<close>

definition replaceClass :: "jchar list \<Rightarrow> jchar \<Rightarrow> jstring \<Rightarrow> jstring" where
  "replaceClass cls r s = map (\<lambda>c. if c \<in> set cls then r else c) s"

definition normalizeFuzzyText :: "jstring \<Rightarrow> jstring" where
  "normalizeFuzzyText text =
     replaceClass [0x2010, 0x2011, 0x2012, 0x2013, 0x2014, 0x2212] 0x2D
       (replaceClass [0x27, 0x201A, 0x201B, 0x60, 0xB4] 0x27
         (replaceClass [0x22, 0x201E, 0x201F, 0xAB, 0xBB] 0x22 text))"

text \<open>
  \<^verbatim>\<open>replace(/[ \t]+/g, " ")\<close>: every maximal run of spaces and tabs becomes one
  space (a blank followed by a blank is dropped, the last blank of a run becomes the space).
\<close>

definition isBlank :: "jchar \<Rightarrow> bool" where
  "isBlank c \<longleftrightarrow> c = 0x20 \<or> c = 0x9"

fun collapseBlanks :: "jstring \<Rightarrow> jstring" where
  "collapseBlanks [] = []"
| "collapseBlanks [c] = [if isBlank c then 0x20 else c]"
| "collapseBlanks (c # d # cs) =
     (if isBlank c then
        (if isBlank d then collapseBlanks (d # cs) else 0x20 # collapseBlanks (d # cs))
      else c # collapseBlanks (d # cs))"

text \<open>
  \<^verbatim>\<open>levenshteinDistance\<close>: the two-row dynamic programme. \<open>levRow\<close> is the inner loop
  over \<open>j\<close>: it walks \<open>b\<close> and the previous row together, \<open>left\<close> being \<open>curr[j - 1]\<close>
  and the head of the row argument \<open>prev[j - 1]\<close>.
\<close>

fun levRow :: "jchar \<Rightarrow> jstring \<Rightarrow> nat list \<Rightarrow> nat \<Rightarrow> nat list" where
  "levRow aCode (bCode # bs) (diag # up # prev) left =
     (let cost = (if aCode = bCode then 0 else 1);
          deletion = up + 1;
          insertion = left + 1;
          substitution = diag + cost;
          v = min (min deletion insertion) substitution
      in v # levRow aCode bs (up # prev) v)"
| "levRow aCode bs prev left = []"

fun levRows :: "jstring \<Rightarrow> jstring \<Rightarrow> nat \<Rightarrow> nat list \<Rightarrow> nat list" where
  "levRows [] b i prev = prev"
| "levRows (aCode # as) b i prev = levRows as b (Suc i) (i # levRow aCode b prev i)"

definition levenshteinDistance :: "jstring \<Rightarrow> jstring \<Rightarrow> nat" where
  "levenshteinDistance a b =
     (if a = b then 0
      else if length a = 0 then length b
      else if length b = 0 then length a
      else last (levRows a b 1 [0 ..< length b + 1]))"

definition similarityScore :: "jstring \<Rightarrow> jstring \<Rightarrow> double" where
  "similarityScore a b =
     (if length a = 0 \<and> length b = 0 then 1
      else let maxLen = max (length a) (length b) in
        if maxLen = 0 then 1
        else fl (1 - fl (of_nat (levenshteinDistance a b) / of_nat maxLen)))"

definition normalizeLineForFuzzy :: "jstring \<Rightarrow> jstring" where
  "normalizeLineForFuzzy line =
     (let trimmed = trim line in
      if length trimmed = 0 then []
      else collapseBlanks (normalizeFuzzyText trimmed))"

definition FUZZY_THRESHOLD :: double where
  "FUZZY_THRESHOLD = fl 0.92"

text \<open>
  \<^verbatim>\<open>matchesAt\<close> and \<^verbatim>\<open>fuzzyScoreAt\<close> are private to the module: the loop over
  \<open>j\<close> is the recursion over the pattern, the second index running from \<open>i\<close>.
  \<^verbatim>\<open>seekSequence\<close> calls them only at positions \<open>i \<le> lines.length - pattern.length\<close>,
  so every read \<open>lines[i + j]\<close> is inside the array, and only with a pattern that is
  not empty, so the division of \<^verbatim>\<open>fuzzyScoreAt\<close> is never \<^verbatim>\<open>0 / 0\<close>.
\<close>

fun matchesAt :: "jstring list \<Rightarrow> jstring list \<Rightarrow> nat \<Rightarrow> (jstring \<Rightarrow> jstring \<Rightarrow> bool) \<Rightarrow> bool" where
  "matchesAt lines [] i compare = True"
| "matchesAt lines (p # ps) i compare =
     (if \<not> compare (lines ! i) p then False else matchesAt lines ps (Suc i) compare)"

fun fuzzyTotal :: "jstring list \<Rightarrow> jstring list \<Rightarrow> nat \<Rightarrow> double \<Rightarrow> double" where
  "fuzzyTotal lines [] i totalScore = totalScore"
| "fuzzyTotal lines (p # ps) i totalScore =
     fuzzyTotal lines ps (Suc i)
       (fl (totalScore
            + similarityScore (normalizeLineForFuzzy (lines ! i)) (normalizeLineForFuzzy p)))"

definition fuzzyScoreAt :: "jstring list \<Rightarrow> jstring list \<Rightarrow> nat \<Rightarrow> double" where
  "fuzzyScoreAt lines pattern i = fl (fuzzyTotal lines pattern i 0 / of_nat (length pattern))"

text \<open>The four strict passes share one loop shape: the first \<open>i\<close> in \<open>[i, maxStart]\<close> that matches.\<close>

function seekPass ::
  "jstring list \<Rightarrow> jstring list \<Rightarrow> (jstring \<Rightarrow> jstring \<Rightarrow> bool) \<Rightarrow> nat \<Rightarrow> nat \<Rightarrow> nat option" where
  "seekPass lines pattern compare i maxStart =
     (if i \<le> maxStart then
        (if matchesAt lines pattern i compare then Some i
         else seekPass lines pattern compare (Suc i) maxStart)
      else None)"
  by pat_completeness auto
termination
  by (relation "measure (\<lambda>(lines, pattern, compare, i, maxStart). Suc maxStart - i)") auto

declare seekPass.simps [simp del]

text \<open>The fuzzy loops: \<open>i\<close> runs up to \<open>stop\<close> (exclusive), carrying \<open>(bestIndex, bestScore)\<close>.\<close>

function fuzzyLoop ::
  "jstring list \<Rightarrow> jstring list \<Rightarrow> nat \<Rightarrow> nat \<Rightarrow> nat option \<times> double \<Rightarrow> nat option \<times> double" where
  "fuzzyLoop lines pattern i stop best =
     (if i < stop then
        (let score = fuzzyScoreAt lines pattern i
         in fuzzyLoop lines pattern (Suc i) stop
              (if score > snd best then (Some i, score) else best))
      else best)"
  by pat_completeness auto
termination
  by (relation "measure (\<lambda>(lines, pattern, i, stop, best). stop - i)") auto

declare fuzzyLoop.simps [simp del]

definition seekSequence :: "jstring list \<Rightarrow> jstring list \<Rightarrow> nat \<Rightarrow> bool \<Rightarrow> SeekSequenceResult" where
  "seekSequence lines pattern start eof =
     (if length pattern = 0 then \<lparr>index = Some start, confidence = 1\<rparr>
      else if length pattern > length lines then \<lparr>index = None, confidence = 0\<rparr>
      else
        let searchStart = (if eof \<and> length lines \<ge> length pattern
                           then length lines - length pattern else start);
            maxStart = length lines - length pattern
        in case seekPass lines pattern (\<lambda>a b. a = b) searchStart maxStart of
             Some i \<Rightarrow> \<lparr>index = Some i, confidence = 1\<rparr>
           | None \<Rightarrow>
        (case seekPass lines pattern (\<lambda>a b. trimEnd a = trimEnd b) searchStart maxStart of
             Some i \<Rightarrow> \<lparr>index = Some i, confidence = fl 0.99\<rparr>
           | None \<Rightarrow>
        (case seekPass lines pattern (\<lambda>a b. trim a = trim b) searchStart maxStart of
             Some i \<Rightarrow> \<lparr>index = Some i, confidence = fl 0.98\<rparr>
           | None \<Rightarrow>
        (case seekPass lines pattern (\<lambda>a b. normalizeUnicode a = normalizeUnicode b)
                searchStart maxStart of
             Some i \<Rightarrow> \<lparr>index = Some i, confidence = fl 0.97\<rparr>
           | None \<Rightarrow>
        (let best1 = fuzzyLoop lines pattern searchStart (Suc maxStart) (None, 0);
             best2 = (if eof \<and> searchStart > start
                      then fuzzyLoop lines pattern start searchStart best1 else best1)
         in if fst best2 \<noteq> None \<and> snd best2 \<ge> FUZZY_THRESHOLD
            then \<lparr>index = fst best2, confidence = snd best2\<rparr>
            else \<lparr>index = None, confidence = snd best2\<rparr>)))))"


section \<open>Hunk parser (apply-patch)\<close>

text \<open>
  \<^verbatim>\<open>split("\n")\<close> and \<^verbatim>\<open>join("\n")\<close>. A split always returns at least one string.
\<close>

definition NL :: jchar where
  "NL = 0xA"

fun splitLines :: "jstring \<Rightarrow> jstring list" where
  "splitLines [] = [[]]"
| "splitLines (c # cs) =
     (if c = NL then [] # splitLines cs
      else (case splitLines cs of
              l # ls \<Rightarrow> (c # l) # ls
            | [] \<Rightarrow> [[c]]))"

fun joinLines :: "jstring list \<Rightarrow> jstring" where
  "joinLines [] = []"
| "joinLines [l] = l"
| "joinLines (l # ls) = l @ NL # joinLines ls"

text \<open>
  The two exception classes. A message is a constructor carrying the values the source
  interpolates into the text; the file path, which only appears in messages, is left out.
\<close>

datatype ParseMessage =
    DiffNoLines
  | ExpectedContextMarker jstring
  | HunkNoLines
  | UnexpectedLine jstring

datatype ParseError = ParseError ParseMessage "nat option"

datatype ApplyMessage =
    ContextNotFound jstring
  | ExpectedLinesNotFound "jstring list"
  | MultipleOccurrences nat
  | NoCloseMatch int nat
  | NoHunks
  | UpdateRequiresDiff

datatype ApplyPatchError = ApplyPatchError ApplyMessage

record UpdateChunk =
  changeContext :: "jstring option"
  hasContextLines :: bool
  oldLines :: "jstring list"
  newLines :: "jstring list"
  isEndOfFile :: bool

definition EOF_MARKER :: jstring where
  "EOF_MARKER = ascii ''*** End of File''"

definition CHANGE_CONTEXT_MARKER :: jstring where
  "CHANGE_CONTEXT_MARKER = ascii ''@@ ''"

definition EMPTY_CHANGE_CONTEXT_MARKER :: jstring where
  "EMPTY_CHANGE_CONTEXT_MARKER = ascii ''@@''"

definition startsWith :: "jstring \<Rightarrow> jstring \<Rightarrow> bool" where
  "startsWith s p \<longleftrightarrow> take (length p) s = p"

text \<open>
  The \<^verbatim>\<open>for\<close> loop of \<^verbatim>\<open>parseOneChunk\<close> over the lines from \<open>startIndex\<close> on,
  carrying the chunk built so far and \<open>parsedLines\<close>; \<^verbatim>\<open>break\<close> returns the state.
\<close>

fun parseChunkLines ::
  "jstring list \<Rightarrow> nat \<Rightarrow> UpdateChunk \<Rightarrow> nat \<Rightarrow> ParseError + UpdateChunk \<times> nat" where
  "parseChunkLines [] lineNumber chunk parsedLines = Inr (chunk, parsedLines)"
| "parseChunkLines (line # rest) lineNumber chunk parsedLines =
     (if line = EOF_MARKER then
        (if parsedLines = 0 then Inl (ParseError HunkNoLines (Some (lineNumber + 1)))
         else Inr (chunk\<lparr>isEndOfFile := True\<rparr>, parsedLines + 1))
      else
        (case line of
           [] \<Rightarrow>
             parseChunkLines rest lineNumber
               (chunk\<lparr>hasContextLines := True,
                      oldLines := oldLines chunk @ [[]],
                      newLines := newLines chunk @ [[]]\<rparr>)
               (parsedLines + 1)
         | firstChar # sliced \<Rightarrow>
             if firstChar = 0x20 then
               parseChunkLines rest lineNumber
                 (chunk\<lparr>hasContextLines := True,
                        oldLines := oldLines chunk @ [sliced],
                        newLines := newLines chunk @ [sliced]\<rparr>)
                 (parsedLines + 1)
             else if firstChar = 0x2B then
               parseChunkLines rest lineNumber
                 (chunk\<lparr>newLines := newLines chunk @ [sliced]\<rparr>) (parsedLines + 1)
             else if firstChar = 0x2D then
               parseChunkLines rest lineNumber
                 (chunk\<lparr>oldLines := oldLines chunk @ [sliced]\<rparr>) (parsedLines + 1)
             else if parsedLines = 0 then
               Inl (ParseError (UnexpectedLine line) (Some (lineNumber + 1)))
             else Inr (chunk, parsedLines)))"

definition parseOneChunk ::
  "jstring list \<Rightarrow> nat \<Rightarrow> bool \<Rightarrow> ParseError + UpdateChunk \<times> nat" where
  "parseOneChunk lines lineNumber allowMissingContext =
     (case lines of
        [] \<Rightarrow> Inl (ParseError DiffNoLines (Some lineNumber))
      | first # _ \<Rightarrow>
          (case (if first = EMPTY_CHANGE_CONTEXT_MARKER then Inr (None, 1)
                 else if startsWith first CHANGE_CONTEXT_MARKER
                   then Inr (Some (drop (length CHANGE_CONTEXT_MARKER) first), 1)
                 else if \<not> allowMissingContext
                   then Inl (ParseError (ExpectedContextMarker first) (Some lineNumber))
                 else Inr (None, 0)) of
             Inl e \<Rightarrow> Inl e
           | Inr (context, startIndex) \<Rightarrow>
               if startIndex \<ge> length lines
               then Inl (ParseError HunkNoLines (Some (lineNumber + 1)))
               else
                 (case parseChunkLines (drop startIndex lines) lineNumber
                         \<lparr>changeContext = context, hasContextLines = False,
                          oldLines = [], newLines = [], isEndOfFile = False\<rparr> 0 of
                    Inl e \<Rightarrow> Inl e
                  | Inr (chunk, parsedLines) \<Rightarrow>
                      if parsedLines = 0
                      then Inl (ParseError HunkNoLines (Some (lineNumber + startIndex)))
                      else Inr (chunk, parsedLines + startIndex))))"

lemma parseOneChunk_consumes:
  "parseOneChunk lines lineNumber allowMissingContext = Inr (chunk, linesConsumed)
     \<Longrightarrow> 0 < linesConsumed"
  by (auto simp: parseOneChunk_def split: list.splits sum.splits prod.splits if_splits)

text \<open>
  The \<^verbatim>\<open>while\<close> loop of \<^verbatim>\<open>parseDiffHunks\<close>. It ends because a parsed chunk
  consumes at least one line.
\<close>

function parseLoop ::
  "jstring list \<Rightarrow> nat \<Rightarrow> UpdateChunk list \<Rightarrow> ParseError + UpdateChunk list" where
  "parseLoop lines i chunks =
     (if i < length lines then
        (if trim (lines ! i) = [] then parseLoop lines (i + 1) chunks
         else
           (case parseOneChunk (drop i lines) (i + 1) (length chunks = 0) of
              Inl e \<Rightarrow> Inl e
            | Inr (chunk, linesConsumed) \<Rightarrow>
                parseLoop lines (i + linesConsumed) (chunks @ [chunk])))
      else Inr chunks)"
  by pat_completeness auto
termination
  by (relation "measure (\<lambda>(lines, i, chunks). length lines - i)")
     (auto dest: parseOneChunk_consumes)

declare parseLoop.simps [simp del]

definition parseDiffHunks :: "jstring \<Rightarrow> ParseError + UpdateChunk list" where
  "parseDiffHunks diff = parseLoop (splitLines diff) 0 []"

text \<open>
  The two kinds of line the parser tells apart, as its tests read them: a hunk header
  (bare \<^verbatim>\<open>@@\<close> or \<^verbatim>\<open>@@ <context>\<close>), and a content line (empty, or starting with a
  space, \<^verbatim>\<open>+\<close> or \<^verbatim>\<open>-\<close>; the end-of-file marker is not one).
\<close>

definition isHunkHeader :: "jstring \<Rightarrow> bool" where
  "isHunkHeader l \<longleftrightarrow> l = EMPTY_CHANGE_CONTEXT_MARKER \<or> startsWith l CHANGE_CONTEXT_MARKER"

definition isContentLine :: "jstring \<Rightarrow> bool" where
  "isContentLine l \<longleftrightarrow>
     l \<noteq> EOF_MARKER \<and> (l = [] \<or> hd l = 0x20 \<or> hd l = 0x2B \<or> hd l = 0x2D)"


section \<open>Patch applicator (apply-patch)\<close>

text \<open>
  The field \<^verbatim>\<open>newLines\<close> of a \<^verbatim>\<open>Replacement\<close> is named \<open>replLines\<close> here, the name
  \<open>newLines\<close> being taken by \<open>UpdateChunk\<close>.
\<close>

record Replacement =
  startIndex :: nat
  oldLen :: nat
  replLines :: "jstring list"

text \<open>
  The body of the \<^verbatim>\<open>for\<close> loop of \<^verbatim>\<open>computeReplacements\<close> for one chunk, from the
  cursor \<open>lineIndex\<close>, in its two blocks. The first block handles the scope line
  \<^verbatim>\<open>changeContext\<close>: the failure thrown, or the cursor from which the old lines are
  sought.
\<close>

definition locateContext :: "jstring list \<Rightarrow> nat \<Rightarrow> UpdateChunk \<Rightarrow> ApplyPatchError + nat" where
  "locateContext originalLines lineIndex chunk =
     (case changeContext chunk of
        None \<Rightarrow> Inr lineIndex
      | Some context \<Rightarrow>
          (case index (seekSequence originalLines [context] lineIndex False) of
             None \<Rightarrow> Inl (ApplyPatchError (ContextNotFound context))
           | Some idx \<Rightarrow>
               (case oldLines chunk of
                  [] \<Rightarrow> Inr (idx + 1)
                | firstOldLine # _ \<Rightarrow>
                    if trim firstOldLine = trim context then Inr idx else Inr (idx + 1))))"

text \<open>
  The second block: the pure addition, or the search for the old lines with its retry.
  It gives the failure thrown, or the replacement pushed and the cursor left for the next
  chunk (\<^verbatim>\<open>continue\<close> leaves the cursor as it is).
\<close>

definition resolveLines ::
  "jstring list \<Rightarrow> nat \<Rightarrow> UpdateChunk \<Rightarrow> ApplyPatchError + Replacement \<times> nat" where
  "resolveLines originalLines lineIndex chunk =
     (if length (oldLines chunk) = 0 then
        (let insertionIdx =
               (if length originalLines > 0 \<and> originalLines ! (length originalLines - 1) = []
                then length originalLines - 1 else length originalLines)
         in Inr (\<lparr>startIndex = insertionIdx, oldLen = 0, replLines = newLines chunk\<rparr>,
                 lineIndex))
      else
        (let pattern = oldLines chunk;
             found = index (seekSequence originalLines pattern lineIndex (isEndOfFile chunk));
             newSlice = newLines chunk;
             retry = (found = None \<and> length pattern > 0 \<and> pattern ! (length pattern - 1) = []);
             pattern' = (if retry then butlast pattern else pattern);
             newSlice' = (if retry \<and> length newSlice > 0 \<and> newSlice ! (length newSlice - 1) = []
                          then butlast newSlice else newSlice);
             found' = (if retry
                       then index (seekSequence originalLines pattern' lineIndex (isEndOfFile chunk))
                       else found)
         in case found' of
              None \<Rightarrow> Inl (ApplyPatchError (ExpectedLinesNotFound (oldLines chunk)))
            | Some f \<Rightarrow>
                Inr (\<lparr>startIndex = f, oldLen = length pattern', replLines = newSlice'\<rparr>,
                     f + length pattern')))"

definition resolveChunk ::
  "jstring list \<Rightarrow> nat \<Rightarrow> UpdateChunk \<Rightarrow> ApplyPatchError + Replacement \<times> nat" where
  "resolveChunk originalLines lineIndex chunk =
     (case locateContext originalLines lineIndex chunk of
        Inl e \<Rightarrow> Inl e
      | Inr lineIndex' \<Rightarrow> resolveLines originalLines lineIndex' chunk)"

fun computeLoop ::
  "jstring list \<Rightarrow> UpdateChunk list \<Rightarrow> nat \<Rightarrow> Replacement list \<Rightarrow> ApplyPatchError + Replacement list" where
  "computeLoop originalLines [] lineIndex replacements = Inr replacements"
| "computeLoop originalLines (chunk # chunks) lineIndex replacements =
     (case resolveChunk originalLines lineIndex chunk of
        Inl e \<Rightarrow> Inl e
      | Inr (r, lineIndex') \<Rightarrow> computeLoop originalLines chunks lineIndex' (replacements @ [r]))"

text \<open>\<^verbatim>\<open>Array.prototype.sort\<close> is stable, as \<open>sort_key\<close> is.\<close>

text \<open>
  The index at which a pure addition is recorded: the end of the file, or the last line
  when that line is empty.
\<close>

definition insertionIndex :: "jstring list \<Rightarrow> nat" where
  "insertionIndex originalLines =
     (if originalLines \<noteq> [] \<and> last originalLines = [] then length originalLines - 1
      else length originalLines)"

definition computeReplacements ::
  "jstring list \<Rightarrow> UpdateChunk list \<Rightarrow> ApplyPatchError + Replacement list" where
  "computeReplacements originalLines chunks =
     (case computeLoop originalLines chunks 0 [] of
        Inl e \<Rightarrow> Inl e
      | Inr replacements \<Rightarrow> Inr (sort_key startIndex replacements))"

text \<open>
  \<^verbatim>\<open>result.splice(startIndex, oldLen); result.splice(startIndex, 0, ...newLines)\<close>; a start
  beyond the end of the array is clamped to the end by \<^verbatim>\<open>splice\<close>, as by \<open>take\<close> and \<open>drop\<close>.
\<close>

definition splice :: "jstring list \<Rightarrow> Replacement \<Rightarrow> jstring list" where
  "splice result r =
     take (startIndex r) result @ replLines r @ drop (startIndex r + oldLen r) result"

definition applyReplacements :: "jstring list \<Rightarrow> Replacement list \<Rightarrow> jstring list" where
  "applyReplacements lines replacements = fold (\<lambda>r result. splice result r) (rev replacements) lines"

text \<open>
  \<^verbatim>\<open>applySimpleReplace\<close> calls three functions of \<^verbatim>\<open>diff.ts\<close>, which is not part of the
  sources at hand. \<^verbatim>\<open>normalizeToLF\<close> and \<^verbatim>\<open>adjustNewTextIndentation\<close> are parameters
  of the model. \<^verbatim>\<open>findEditMatch\<close>, which is always called with the same options and so
  takes the content and the target only, is modelled below; the search it makes when the
  target does not occur more than once is the parameter \<open>searchEditMatch\<close>. The fields
  \<^verbatim>\<open>startIndex\<close>, \<^verbatim>\<open>startLine\<close> and \<^verbatim>\<open>confidence\<close> of a match carry the prefix
  \<open>match\<close>.
\<close>

record EditMatch =
  actualText :: jstring
  matchStartIndex :: nat
  matchStartLine :: nat
  matchConfidence :: double

record MatchOutcome =
  match :: "EditMatch option"
  closest :: "EditMatch option"
  occurrences :: "nat option"

record DiffModule =
  normalizeToLF :: "jstring \<Rightarrow> jstring"
  searchEditMatch :: "jstring \<Rightarrow> jstring \<Rightarrow> MatchOutcome"
  adjustNewTextIndentation :: "jstring \<Rightarrow> jstring \<Rightarrow> jstring \<Rightarrow> jstring"

text \<open>
  Modelled from the spec: \<^verbatim>\<open>findEditMatch\<close> (\<^verbatim>\<open>diff.ts\<close>) is not among the sources at
  hand. The specification says of the whole-text replacement that it ``must fail loudly if
  the old text occurs more than once verbatim rather than guessing which occurrence was
  meant'', ``with an error naming the occurrence count''. So the positions at which the
  target occurs verbatim in the content are counted; when there is more than one, the
  outcome carries their number and no match. Otherwise the outcome is that of the search,
  exact or fuzzy, which the specification does not detail.
\<close>

definition occurrencePositions :: "jstring \<Rightarrow> jstring \<Rightarrow> nat list" where
  "occurrencePositions content target =
     filter (\<lambda>i. take (length target) (drop i content) = target)
       [0 ..< Suc (length content - length target)]"

definition findEditMatch :: "DiffModule \<Rightarrow> jstring \<Rightarrow> jstring \<Rightarrow> MatchOutcome" where
  "findEditMatch d content target =
     (if length (occurrencePositions content target) > 1
      then \<lparr>match = None, closest = None,
            occurrences = Some (length (occurrencePositions content target))\<rparr>
      else searchEditMatch d content target)"

definition endsWithNL :: "jstring \<Rightarrow> bool" where
  "endsWithNL s \<longleftrightarrow> s \<noteq> [] \<and> last s = NL"

text \<open>\<^verbatim>\<open>Math.round(x)\<close> is \<open>\<lfloor>x + 1/2\<rfloor>\<close>, of the double \<open>x\<close> that the product is.\<close>

definition applySimpleReplace :: "DiffModule \<Rightarrow> jstring \<Rightarrow> UpdateChunk \<Rightarrow> ApplyPatchError + jstring" where
  "applySimpleReplace d originalContent chunk =
     (let oldText = joinLines (oldLines chunk);
          newText = joinLines (newLines chunk);
          normalizedContent = normalizeToLF d originalContent;
          normalizedOldText = normalizeToLF d oldText;
          matchOutcome = findEditMatch d normalizedContent normalizedOldText
      in case (case occurrences matchOutcome of
                 None \<Rightarrow> None
               | Some n \<Rightarrow> if n \<noteq> 0 \<and> n > 1 then Some n else None) of
           Some n \<Rightarrow> Inl (ApplyPatchError (MultipleOccurrences n))
         | None \<Rightarrow>
           (case match matchOutcome of
              None \<Rightarrow>
                (case closest matchOutcome of
                   Some c \<Rightarrow>
                     Inl (ApplyPatchError
                            (NoCloseMatch \<lfloor>fl (matchConfidence c * 100) + 1 / 2\<rfloor>
                               (matchStartLine c)))
                 | None \<Rightarrow> Inl (ApplyPatchError (ExpectedLinesNotFound (oldLines chunk))))
            | Some m \<Rightarrow>
                (let adjustedNewText =
                       adjustNewTextIndentation d normalizedOldText (actualText m) newText;
                     before' = take (matchStartIndex m) normalizedContent;
                     after' = drop (matchStartIndex m + length (actualText m)) normalizedContent;
                     result = before' @ adjustedNewText @ after'
                 in Inr (if \<not> endsWithNL result then result @ [NL] else result))))"

definition applyDiffToContent :: "DiffModule \<Rightarrow> jstring \<Rightarrow> UpdateChunk list \<Rightarrow> ApplyPatchError + jstring" where
  "applyDiffToContent d originalContent chunks =
     (if length chunks = 1 \<and> changeContext (chunks ! 0) = None \<and> \<not> hasContextLines (chunks ! 0)
         \<and> length (oldLines (chunks ! 0)) > 0
      then applySimpleReplace d originalContent (chunks ! 0)
      else
        (let split = splitLines originalContent;
             originalLines = (if length split > 0 \<and> split ! (length split - 1) = []
                              then butlast split else split)
         in case computeReplacements originalLines chunks of
              Inl e \<Rightarrow> Inl e
            | Inr replacements \<Rightarrow>
                (let newLines = applyReplacements originalLines replacements;
                     newLines' = (if length newLines = 0 \<or> newLines ! (length newLines - 1) \<noteq> []
                                  then newLines @ [[]] else newLines)
                 in Inr (joinLines newLines'))))"

text \<open>
  A stand-in for the parameters, for the examples: line endings and indentation are left
  as they are, and the search finds nothing.
\<close>

definition plainDiff :: DiffModule where
  "plainDiff =
     \<lparr>normalizeToLF = (\<lambda>s. s),
      searchEditMatch = (\<lambda>c t. \<lparr>match = None, closest = None, occurrences = None\<rparr>),
      adjustNewTextIndentation = (\<lambda>oldText actual newText. newText)\<rparr>"

text \<open>
  The update branch of \<^verbatim>\<open>applyPatch\<close> on the content read from the file: the new
  content that is written, or the failure thrown. The file system is left out.
\<close>

datatype PatchFailure = ParseFailure ParseError | ApplyFailure ApplyPatchError

definition applyUpdate :: "DiffModule \<Rightarrow> jstring \<Rightarrow> jstring \<Rightarrow> PatchFailure + jstring" where
  "applyUpdate d originalContent diff =
     (if diff = [] then Inl (ApplyFailure (ApplyPatchError UpdateRequiresDiff))
      else
        (case parseDiffHunks diff of
           Inl e \<Rightarrow> Inl (ParseFailure e)
         | Inr chunks \<Rightarrow>
             if length chunks = 0 then Inl (ApplyFailure (ApplyPatchError NoHunks))
             else (case applyDiffToContent d originalContent chunks of
                     Inl e \<Rightarrow> Inl (ApplyFailure e)
                   | Inr newContent \<Rightarrow> Inr newContent)))"


section \<open>The matching cascade as the specification words it\<close>

text \<open>
  The specification describes \<^verbatim>\<open>seekSequence\<close> as a cascade of strategies over
  candidate start positions. \<open>seekCascade\<close> follows those words; it is compared with the
  loops of \<open>seekSequence\<close> below. A pattern matches at position \<open>i\<close> under a
  normalisation when every pattern line equals the haystack line it faces after both are
  normalised.
\<close>

definition linesEqualUnder ::
  "(jstring \<Rightarrow> jstring) \<Rightarrow> jstring list \<Rightarrow> jstring list \<Rightarrow> nat \<Rightarrow> bool" where
  "linesEqualUnder nf lines pattern i \<longleftrightarrow>
     list_all (\<lambda>j. nf (lines ! (i + j)) = nf (pattern ! j)) [0 ..< length pattern]"

text \<open>
  The Levenshtein distance as the Wagner-Fischer recurrence defines it: \<open>levPrefix a b i j\<close>
  is the distance between the first \<open>i\<close> code units of \<open>a\<close> and the first \<open>j\<close> of \<open>b\<close>.
\<close>

fun levPrefix :: "jstring \<Rightarrow> jstring \<Rightarrow> nat \<Rightarrow> nat \<Rightarrow> nat" where
  "levPrefix a b 0 j = j"
| "levPrefix a b (Suc i) 0 = Suc i"
| "levPrefix a b (Suc i) (Suc j) =
     min (min (levPrefix a b i (Suc j) + 1) (levPrefix a b (Suc i) j + 1))
         (levPrefix a b i j + (if a ! i = b ! j then 0 else 1))"

text \<open>
  The similarity of two lines: one minus the distance over the longer length, in double
  arithmetic.
\<close>

definition lineSimilarity :: "jstring \<Rightarrow> jstring \<Rightarrow> double" where
  "lineSimilarity a b =
     (if a = [] \<and> b = [] then 1
      else fl (1 - fl (of_nat (levPrefix a b (length a) (length b))
                       / of_nat (max (length a) (length b)))))"

text \<open>
  The fuzzy score of a position: the mean over the pattern lines of the similarity of the
  normalised pattern line and the normalised haystack line it faces. The similarities are
  added from the first line to the last, each sum rounded to a double, and the total is
  divided by the number of lines.
\<close>

definition doubleSum :: "double list \<Rightarrow> double" where
  "doubleSum xs = foldl (\<lambda>t s. fl (t + s)) 0 xs"

definition meanSimilarity :: "jstring list \<Rightarrow> jstring list \<Rightarrow> nat \<Rightarrow> double" where
  "meanSimilarity lines pattern i =
     fl (doubleSum (map (\<lambda>j. lineSimilarity (normalizeLineForFuzzy (lines ! (i + j)))
                                              (normalizeLineForFuzzy (pattern ! j)))
                        [0 ..< length pattern])
         / of_nat (length pattern))"

text \<open>A best-scoring candidate: none of the candidates scores higher.\<close>

definition isBest :: "(nat \<Rightarrow> double) \<Rightarrow> nat list \<Rightarrow> nat \<Rightarrow> bool" where
  "isBest score cands i \<longleftrightarrow> list_all (\<lambda>k. score k \<le> score i) cands"

text \<open>
  The cascade. The confidences and the threshold are the doubles that the decimals
  \<^verbatim>\<open>1.00\<close>, \<^verbatim>\<open>0.99\<close>, \<^verbatim>\<open>0.98\<close>, \<^verbatim>\<open>0.97\<close> and \<^verbatim>\<open>0.92\<close> denote. Among positions with the same
  best score the first candidate is kept.
\<close>

definition seekCascade ::
  "jstring list \<Rightarrow> jstring list \<Rightarrow> nat list \<Rightarrow> nat list \<Rightarrow> (nat \<times> double) option" where
  "seekCascade lines pattern strict fuzzy =
     (case find (linesEqualUnder (\<lambda>s. s) lines pattern) strict of
        Some i \<Rightarrow> Some (i, 1)
      | None \<Rightarrow>
     (case find (linesEqualUnder trimEnd lines pattern) strict of
        Some i \<Rightarrow> Some (i, fl 0.99)
      | None \<Rightarrow>
     (case find (linesEqualUnder trim lines pattern) strict of
        Some i \<Rightarrow> Some (i, fl 0.98)
      | None \<Rightarrow>
     (case find (linesEqualUnder normalizeUnicode lines pattern) strict of
        Some i \<Rightarrow> Some (i, fl 0.97)
      | None \<Rightarrow>
     (case find (isBest (meanSimilarity lines pattern) fuzzy) fuzzy of
        None \<Rightarrow> None
      | Some k \<Rightarrow>
          if meanSimilarity lines pattern k \<ge> fl 0.92
          then Some (k, meanSimilarity lines pattern k) else None)))))"

text \<open>
  The candidate positions. Without the end-of-file flag both the strict strategies and
  the fuzzy pass scan from \<open>startIndex\<close> to \<open>haystackLength - patternLength\<close>. With the
  flag the strict strategies try the end position only, and the fuzzy pass scores the end
  position first and then the positions from \<open>startIndex\<close> up to it.
\<close>

definition strictCandidates :: "jstring list \<Rightarrow> jstring list \<Rightarrow> nat \<Rightarrow> bool \<Rightarrow> nat list" where
  "strictCandidates lines pattern start eof =
     (if eof then [length lines - length pattern]
      else [start ..< Suc (length lines - length pattern)])"

definition fuzzyCandidates :: "jstring list \<Rightarrow> jstring list \<Rightarrow> nat \<Rightarrow> bool \<Rightarrow> nat list" where
  "fuzzyCandidates lines pattern start eof =
     (if eof then (length lines - length pattern) # [start ..< length lines - length pattern]
      else [start ..< Suc (length lines - length pattern)])"

definition found :: "SeekSequenceResult \<Rightarrow> (nat \<times> double) option" where
  "found r = (case index r of None \<Rightarrow> None | Some i \<Rightarrow> Some (i, confidence r))"

text \<open>One round of a fuzzy loop, on the pair \<open>(bestIndex, bestScore)\<close>.\<close>

definition fuzzyStep ::
  "(nat \<Rightarrow> double) \<Rightarrow> nat \<Rightarrow> nat option \<times> double \<Rightarrow> nat option \<times> double" where
  "fuzzyStep score i best = (if score i > snd best then (Some i, score i) else best)"

section \<open>Hashline edit engine\<close>

text \<open>
  Modelled from the spec: the hashline module (\<^verbatim>\<open>patch/hashline.ts\<close>:
  \<^verbatim>\<open>applyHashlineEdits\<close>, \<^verbatim>\<open>compactLineRanges\<close>, \<^verbatim>\<open>computeLineHash\<close>) is not among
  the sources at hand; only its tests and an excerpt of the class
  \<^verbatim>\<open>HashlineMismatchError\<close> are. The definitions of this section follow sections 3 and
  4.4 of the specification. The line hash is a parameter \<open>H\<close>. Fields are prefixed where
  the specification's names (\<open>line\<close>, \<open>hash\<close>, \<open>start\<close>, \<open>end\<close>) would clash.
\<close>

record LineTag =
  tagLine :: nat
  tagHash :: jstring

datatype HashlineEdit =
    Replace LineTag "jstring list"
  | ReplaceRange LineTag LineTag "jstring list"
  | InsertAfter "LineTag option" "jstring list"
  | InsertBefore "LineTag option" "jstring list"
  | InsertBetween LineTag LineTag "jstring list"

record Mismatch =
  mismatchLine :: nat
  expected :: jstring
  actual :: jstring

record AffectedRange =
  rangeStart :: nat
  rangeEnd :: nat

text \<open>
  Modelled from the spec: compaction of line numbers into maximal contiguous ranges,
  ``adjacent integers merge; a single gap of one or more starts a new range''. The sweep
  runs over the line numbers in ascending order without repetitions, \<open>s\<close> and \<open>e\<close> being
  the range under construction.
\<close>

fun compactSweep :: "nat \<Rightarrow> nat \<Rightarrow> nat list \<Rightarrow> AffectedRange list" where
  "compactSweep s e [] = [\<lparr>rangeStart = s, rangeEnd = e\<rparr>]"
| "compactSweep s e (x # xs) =
     (if x = e + 1 then compactSweep s x xs
      else \<lparr>rangeStart = s, rangeEnd = e\<rparr> # compactSweep x x xs)"

definition compactLineRanges :: "nat list \<Rightarrow> AffectedRange list" where
  "compactLineRanges lineNumbers =
     (case sort (remdups lineNumbers) of
        [] \<Rightarrow> []
      | x # xs \<Rightarrow> compactSweep x x xs)"

text \<open>
  The failure \<^verbatim>\<open>HashlineMismatchError\<close>, built as its constructor builds it: a remap
  from the stale tag to the live tag for every mismatch, and the affected ranges compacted
  from the mismatched line numbers. The message text is left out.
\<close>

record MismatchFailure =
  mismatches :: "Mismatch list"
  remaps :: "(LineTag \<times> LineTag) list"
  affectedRanges :: "AffectedRange list"

definition HashlineMismatchError ::
  "(nat \<Rightarrow> jstring \<Rightarrow> jstring) \<Rightarrow> Mismatch list \<Rightarrow> jstring list \<Rightarrow> MismatchFailure" where
  "HashlineMismatchError H ms fileLines =
     \<lparr>mismatches = ms,
      remaps = map (\<lambda>m. (\<lparr>tagLine = mismatchLine m, tagHash = expected m\<rparr>,
                          \<lparr>tagLine = mismatchLine m,
                           tagHash = H (mismatchLine m) (fileLines ! (mismatchLine m - 1))\<rparr>)) ms,
      affectedRanges = compactLineRanges (map mismatchLine ms)\<rparr>"

datatype RangeProblem = OutOfBounds nat | Inverted nat nat

datatype EditFailure =
    Mismatched MismatchFailure
  | RangeFailure RangeProblem
  | EmptyInsert

record Applied =
  content :: jstring
  firstChangedLine :: "nat option"

text \<open>A stand-in for the line hash, for the examples: the text of the line itself.\<close>

definition plainHash :: "nat \<Rightarrow> jstring \<Rightarrow> jstring" where
  "plainHash n s = s"

text \<open>Modelled from the spec: the tags an edit references (single, first/last, after/before).\<close>

fun referencedTags :: "HashlineEdit \<Rightarrow> LineTag list" where
  "referencedTags (Replace t c) = [t]"
| "referencedTags (ReplaceRange firstTag lastTag c) = [firstTag, lastTag]"
| "referencedTags (InsertAfter afterTag c) = (case afterTag of None \<Rightarrow> [] | Some t \<Rightarrow> [t])"
| "referencedTags (InsertBefore beforeTag c) = (case beforeTag of None \<Rightarrow> [] | Some t \<Rightarrow> [t])"
| "referencedTags (InsertBetween afterTag beforeTag c) = [afterTag, beforeTag]"

definition inRange :: "jstring list \<Rightarrow> LineTag \<Rightarrow> bool" where
  "inRange fileLines t \<longleftrightarrow> 1 \<le> tagLine t \<and> tagLine t \<le> length fileLines"

definition hashMatches :: "(nat \<Rightarrow> jstring \<Rightarrow> jstring) \<Rightarrow> jstring list \<Rightarrow> LineTag \<Rightarrow> bool" where
  "hashMatches H fileLines t \<longleftrightarrow> H (tagLine t) (fileLines ! (tagLine t - 1)) = tagHash t"

definition toMismatch :: "jstring list \<Rightarrow> LineTag \<Rightarrow> Mismatch" where
  "toMismatch fileLines t =
     \<lparr>mismatchLine = tagLine t, expected = tagHash t, actual = fileLines ! (tagLine t - 1)\<rparr>"

text \<open>
  Modelled from the spec, step 5: the checks that are user errors, not mismatches.
\<close>

fun userError :: "HashlineEdit \<Rightarrow> EditFailure option" where
  "userError (Replace t c) = None"
| "userError (ReplaceRange firstTag lastTag c) =
     (if tagLine firstTag > tagLine lastTag
      then Some (RangeFailure (Inverted (tagLine firstTag) (tagLine lastTag))) else None)"
| "userError (InsertAfter afterTag c) = (if c = [] then Some EmptyInsert else None)"
| "userError (InsertBefore beforeTag c) = (if c = [] then Some EmptyInsert else None)"
| "userError (InsertBetween afterTag beforeTag c) =
     (if c = [] then Some EmptyInsert
      else if tagLine afterTag \<ge> tagLine beforeTag
      then Some (RangeFailure (Inverted (tagLine afterTag) (tagLine beforeTag))) else None)"

text \<open>
  Modelled from the spec, step 4: every edit resolved against the original numbering to
  a splice (start index, lines removed, lines inserted); the splices are applied in
  descending order of their start.
\<close>

fun resolveEdit :: "jstring list \<Rightarrow> HashlineEdit \<Rightarrow> Replacement" where
  "resolveEdit fileLines (Replace t c) =
     \<lparr>startIndex = tagLine t - 1, oldLen = 1, replLines = c\<rparr>"
| "resolveEdit fileLines (ReplaceRange firstTag lastTag c) =
     \<lparr>startIndex = tagLine firstTag - 1, oldLen = tagLine lastTag - tagLine firstTag + 1, replLines = c\<rparr>"
| "resolveEdit fileLines (InsertAfter afterTag c) =
     \<lparr>startIndex = (case afterTag of None \<Rightarrow> length fileLines | Some t \<Rightarrow> tagLine t),
      oldLen = 0, replLines = c\<rparr>"
| "resolveEdit fileLines (InsertBefore beforeTag c) =
     \<lparr>startIndex = (case beforeTag of None \<Rightarrow> 0 | Some t \<Rightarrow> tagLine t - 1),
      oldLen = 0, replLines = c\<rparr>"
| "resolveEdit fileLines (InsertBetween afterTag beforeTag c) =
     \<lparr>startIndex = tagLine beforeTag - 1, oldLen = 0, replLines = c\<rparr>"

fun firstDifference :: "jstring list \<Rightarrow> jstring list \<Rightarrow> nat \<Rightarrow> nat option" where
  "firstDifference [] [] n = None"
| "firstDifference (x # xs) (y # ys) n = (if x = y then firstDifference xs ys (n + 1) else Some n)"
| "firstDifference xs ys n = Some n"

text \<open>
  Modelled from the spec, section 4.4: split; validate every referenced tag, collecting
  every mismatch; fail with all of them if there is one; otherwise check, resolve and
  splice. A failure is a value that carries no content.
\<close>

definition applyHashlineEdits ::
  "(nat \<Rightarrow> jstring \<Rightarrow> jstring) \<Rightarrow> jstring \<Rightarrow> HashlineEdit list \<Rightarrow> EditFailure + Applied" where
  "applyHashlineEdits H fileText edits =
     (let fileLines = splitLines fileText;
          tags = concat (map referencedTags edits)
      in case find (\<lambda>t. \<not> inRange fileLines t) tags of
           Some t \<Rightarrow> Inl (RangeFailure (OutOfBounds (tagLine t)))
         | None \<Rightarrow>
             (let ms = map (toMismatch fileLines) (filter (\<lambda>t. \<not> hashMatches H fileLines t) tags)
              in if ms \<noteq> [] then Inl (Mismatched (HashlineMismatchError H ms fileLines))
                 else
                   (case List.map_filter userError edits of
                      e # _ \<Rightarrow> Inl e
                    | [] \<Rightarrow>
                        (let splices = rev (sort_key startIndex (map (resolveEdit fileLines) edits));
                             newLines = fold (\<lambda>r result. splice result r) splices fileLines
                         in Inr \<lparr>content = joinLines newLines,
                                 firstChangedLine = firstDifference fileLines newLines 1\<rparr>))))"


section \<open>Properties of the double arithmetic\<close>

subsection \<open>The binary exponent\<close>

lemma bitLength_less: "n < 2 ^ bitLength n"
proof (induction n rule: bitLength.induct)
  case (1 n)
  show ?case
  proof (cases "n = 0")
    case True
    then show ?thesis by (simp add: bitLength.simps)
  next
    case False
    with 1 have "n div 2 < 2 ^ bitLength (n div 2)" by simp
    then have "n < 2 * 2 ^ bitLength (n div 2)" by linarith
    with False show ?thesis by (subst bitLength.simps) simp
  qed
qed

lemma bitLength_ge: "0 < n \<Longrightarrow> 2 ^ (bitLength n - 1) \<le> n"
proof (induction n rule: bitLength.induct)
  case (1 n)
  then have n: "n \<noteq> 0" by simp
  show ?case
  proof (cases "n div 2 = 0")
    case True
    with n have "bitLength n = 1"
      by (subst bitLength.simps) (simp add: bitLength.simps[of 0])
    with 1 show ?thesis by simp
  next
    case False
    with 1 n have ih: "2 ^ (bitLength (n div 2) - 1) \<le> n div 2" by simp
    from False have "bitLength (n div 2) \<noteq> 0"
      by (subst bitLength.simps) simp
    then have "bitLength n - 1 = Suc (bitLength (n div 2) - 1)"
      using n by (subst bitLength.simps) simp
    with ih show ?thesis by simp
  qed
qed

lemma bitLength_pos: "0 < n \<Longrightarrow> 0 < bitLength n"
  by (subst bitLength.simps) simp

lemma bitLength_less_rat: "(of_nat n :: rat) + 1 \<le> 2 ^ bitLength n"
proof -
  have "Suc n \<le> 2 ^ bitLength n" using bitLength_less[of n] by simp
  then have "(of_nat (Suc n) :: rat) \<le> of_nat (2 ^ bitLength n)"
    by (simp only: of_nat_le_iff)
  then show ?thesis by simp
qed

lemma bitLength_ge_rat: "0 < n \<Longrightarrow> (2::rat) ^ (bitLength n - 1) \<le> of_nat n"
proof -
  assume "0 < n"
  then have "2 ^ (bitLength n - 1) \<le> n" by (rule bitLength_ge)
  then have "(of_nat (2 ^ (bitLength n - 1)) :: rat) \<le> of_nat n"
    by (simp only: of_nat_le_iff)
  then show ?thesis by simp
qed

lemma ceiling_recip:
  assumes "0 < x" and "x < (1::rat)"
  shows "0 < nat (\<lceil>1 / x\<rceil> - 1)"
    and "(of_nat (nat (\<lceil>1 / x\<rceil> - 1)) :: rat) = of_int \<lceil>1 / x\<rceil> - 1"
proof -
  from assms have "of_int 1 < 1 / x" by simp
  then have "1 < \<lceil>1 / x\<rceil>" by (simp only: less_ceiling_iff)
  then have c: "0 \<le> \<lceil>1 / x\<rceil> - 1" and d: "0 < \<lceil>1 / x\<rceil> - 1" by linarith+
  from d show "0 < nat (\<lceil>1 / x\<rceil> - 1)" by simp
  have "(of_nat (nat (\<lceil>1 / x\<rceil> - 1)) :: rat) = of_int (\<lceil>1 / x\<rceil> - 1)"
    using c by (rule of_nat_nat)
  then show "(of_nat (nat (\<lceil>1 / x\<rceil> - 1)) :: rat) = of_int \<lceil>1 / x\<rceil> - 1"
    by simp
qed

lemma floorLog2_lower:
  assumes "0 < x"
  shows "2 powi floorLog2 x \<le> x"
proof (cases "1 \<le> x")
  case True
  let ?n = "nat \<lfloor>x\<rfloor>"
  from True have n: "0 < ?n" by simp
  from True n have e: "floorLog2 x = int (bitLength ?n - 1)"
    using bitLength_pos[OF n] by (simp add: floorLog2_def)
  have "(2::rat) ^ (bitLength ?n - 1) \<le> of_nat ?n"
    using n by (rule bitLength_ge_rat)
  also have "\<dots> \<le> x" using True by simp
  finally show ?thesis unfolding e by simp
next
  case False
  let ?n = "nat (\<lceil>1 / x\<rceil> - 1)"
  from False have e: "floorLog2 x = - int (bitLength ?n)" by (simp add: floorLog2_def)
  from False assms have x1: "x < 1" by simp
  have "1 / x \<le> of_int \<lceil>1 / x\<rceil>" by simp
  also have "\<dots> = of_nat ?n + 1" using ceiling_recip(2)[OF assms x1] by simp
  also have "\<dots> \<le> 2 ^ bitLength ?n" by (rule bitLength_less_rat)
  finally have "1 / x \<le> 2 ^ bitLength ?n" .
  with assms have "1 / 2 ^ bitLength ?n \<le> x"
    by (simp add: field_simps)
  then show ?thesis unfolding e by (simp add: power_int_minus_divide)
qed

lemma floorLog2_upper:
  assumes "0 < x"
  shows "x < 2 powi (floorLog2 x + 1)"
proof (cases "1 \<le> x")
  case True
  let ?n = "nat \<lfloor>x\<rfloor>"
  from True have n: "0 < ?n" by simp
  from True have e: "floorLog2 x + 1 = int (bitLength ?n)"
    by (simp add: floorLog2_def)
  have "of_nat ?n + 1 \<le> (2::rat) ^ bitLength ?n" by (rule bitLength_less_rat)
  moreover have "x < of_nat ?n + 1" using True by simp linarith
  ultimately show ?thesis unfolding e by simp
next
  case False
  let ?n = "nat (\<lceil>1 / x\<rceil> - 1)"
  from False assms have x1: "x < 1" by simp
  note n = ceiling_recip(1)[OF assms x1]
  from False have e: "floorLog2 x + 1 = - int (bitLength ?n - 1)"
    using bitLength_pos[OF n] by (simp add: floorLog2_def)
  have "(2::rat) ^ (bitLength ?n - 1) \<le> of_nat ?n"
    using n by (rule bitLength_ge_rat)
  also have "\<dots> = of_int \<lceil>1 / x\<rceil> - 1" by (rule ceiling_recip(2)[OF assms x1])
  also have "\<dots> < 1 / x" by linarith
  finally have "2 ^ (bitLength ?n - 1) < 1 / x" .
  with assms have "x < 1 / 2 ^ (bitLength ?n - 1)"
    by (simp add: field_simps)
  then show ?thesis unfolding e by (simp add: power_int_minus_divide)
qed

lemma floorLog2_unique:
  assumes "0 < x" and "2 powi k \<le> x" and "x < 2 powi (k + 1)"
  shows "floorLog2 x = k"
proof (rule antisym)
  show "floorLog2 x \<le> k"
  proof (rule ccontr)
    assume "\<not> floorLog2 x \<le> k"
    then have "k + 1 \<le> floorLog2 x" by simp
    then have "(2::rat) powi (k + 1) \<le> 2 powi floorLog2 x"
      by (rule power_int_increasing) simp
    with floorLog2_lower[OF assms(1)] assms(3) show False by simp
  qed
next
  show "k \<le> floorLog2 x"
  proof (rule ccontr)
    assume "\<not> k \<le> floorLog2 x"
    then have "floorLog2 x + 1 \<le> k" by simp
    then have "(2::rat) powi (floorLog2 x + 1) \<le> 2 powi k"
      by (rule power_int_increasing) simp
    with floorLog2_upper[OF assms(1)] assms(2) show False by simp
  qed
qed

lemma floorLog2_mono:
  assumes "0 < x" and "x \<le> y"
  shows "floorLog2 x \<le> floorLog2 y"
proof (rule ccontr)
  assume "\<not> floorLog2 x \<le> floorLog2 y"
  then have "floorLog2 y + 1 \<le> floorLog2 x" by simp
  then have "(2::rat) powi (floorLog2 y + 1) \<le> 2 powi floorLog2 x"
    by (rule power_int_increasing) simp
  moreover have "0 < y" using assms by simp
  ultimately show False
    using floorLog2_lower[OF assms(1)] floorLog2_upper[of y] assms(2) by simp
qed

subsection \<open>Rounding to the nearest double\<close>

lemma roundHalfEven_of_int [simp]: "roundHalfEven (of_int k) = k"
  by (simp add: roundHalfEven_def)

lemma roundHalfEven_bounds: "\<lfloor>m\<rfloor> \<le> roundHalfEven m \<and> roundHalfEven m \<le> \<lfloor>m\<rfloor> + 1"
  by (simp add: roundHalfEven_def)

lemma roundHalfEven_mono:
  assumes "m \<le> m'"
  shows "roundHalfEven m \<le> roundHalfEven m'"
proof (cases "\<lfloor>m\<rfloor> = \<lfloor>m'\<rfloor>")
  case True
  with assms show ?thesis by (auto simp: roundHalfEven_def)
next
  case False
  with assms have "\<lfloor>m\<rfloor> + 1 \<le> \<lfloor>m'\<rfloor>"
    using floor_mono[OF assms] by simp
  with roundHalfEven_bounds[of m] roundHalfEven_bounds[of m'] show ?thesis by linarith
qed

lemma ulp_pos: "0 < ulp x"
  by (simp add: ulp_def)

text \<open>The scaled significand lies between \<open>2^52\<close> and \<open>2^53\<close>.\<close>

lemma significand_bounds:
  assumes "0 < x"
  shows "2 ^ 52 \<le> x / ulp x" and "x / ulp x < 2 ^ 53"
proof -
  have u: "ulp x * 2 ^ 52 = 2 powi floorLog2 x"
    by (simp add: ulp_def power_int_diff)
  have v: "ulp x * 2 ^ 53 = 2 powi (floorLog2 x + 1)"
    by (simp add: ulp_def power_int_diff power_int_add)
  from floorLog2_lower[OF assms] have "ulp x * 2 ^ 52 \<le> x" unfolding u .
  then show "2 ^ 52 \<le> x / ulp x"
    using ulp_pos[of x] by (simp add: field_simps)
  from floorLog2_upper[OF assms] have "x < ulp x * 2 ^ 53" unfolding v .
  then show "x / ulp x < 2 ^ 53"
    using ulp_pos[of x] by (simp add: field_simps)
qed

lemma roundHalfEven_significand:
  assumes "0 < x"
  shows "2 ^ 52 \<le> roundHalfEven (x / ulp x)" and "roundHalfEven (x / ulp x) \<le> 2 ^ 53"
proof -
  have "roundHalfEven (of_int (2 ^ 52)) \<le> roundHalfEven (x / ulp x)"
    by (rule roundHalfEven_mono) (use significand_bounds(1)[OF assms] in simp)
  then show "2 ^ 52 \<le> roundHalfEven (x / ulp x)" by (simp only: roundHalfEven_of_int)
  have "roundHalfEven (x / ulp x) \<le> roundHalfEven (of_int (2 ^ 53))"
    by (rule roundHalfEven_mono) (use significand_bounds(2)[OF assms] in simp)
  then show "roundHalfEven (x / ulp x) \<le> 2 ^ 53" by (simp only: roundHalfEven_of_int)
qed

lemma flPos_lower:
  assumes "0 < x"
  shows "2 powi floorLog2 x \<le> flPos x"
proof -
  have "2 powi floorLog2 x = of_int (2 ^ 52) * ulp x"
    by (simp add: ulp_def power_int_diff)
  also have "\<dots> \<le> of_int (roundHalfEven (x / ulp x)) * ulp x"
  proof (rule mult_right_mono)
    show "(of_int (2 ^ 52) :: rat) \<le> of_int (roundHalfEven (x / ulp x))"
      using roundHalfEven_significand(1)[OF assms] by (simp only: of_int_le_iff)
    show "0 \<le> ulp x" using ulp_pos[of x] by (rule less_imp_le)
  qed
  finally show ?thesis by (simp add: flPos_def)
qed

lemma flPos_upper:
  assumes "0 < x"
  shows "flPos x \<le> 2 powi (floorLog2 x + 1)"
proof -
  have "of_int (roundHalfEven (x / ulp x)) * ulp x \<le> of_int (2 ^ 53) * ulp x"
  proof (rule mult_right_mono)
    show "(of_int (roundHalfEven (x / ulp x)) :: rat) \<le> of_int (2 ^ 53)"
      using roundHalfEven_significand(2)[OF assms] by (simp only: of_int_le_iff)
    show "0 \<le> ulp x" using ulp_pos[of x] by (rule less_imp_le)
  qed
  also have "\<dots> = 2 powi (floorLog2 x + 1)"
    by (simp add: ulp_def power_int_diff power_int_add)
  finally show ?thesis by (simp add: flPos_def)
qed

lemma flPos_pos:
  assumes "0 < x"
  shows "0 < flPos x"
proof -
  have "(0::rat) < 2 powi floorLog2 x" by simp
  also have "\<dots> \<le> flPos x" using assms by (rule flPos_lower)
  finally show ?thesis .
qed

lemma flPos_mono:
  assumes "0 < x" and "x \<le> y"
  shows "flPos x \<le> flPos y"
proof (cases "floorLog2 x = floorLog2 y")
  case True
  then have u: "ulp x = ulp y" by (simp add: ulp_def)
  have "x / ulp y \<le> y / ulp y"
    using assms(2) ulp_pos[of y] by (simp add: divide_right_mono)
  then have "roundHalfEven (x / ulp y) \<le> roundHalfEven (y / ulp y)"
    by (rule roundHalfEven_mono)
  then have "(of_int (roundHalfEven (x / ulp y)) :: rat) \<le> of_int (roundHalfEven (y / ulp y))"
    by (simp only: of_int_le_iff)
  then show ?thesis
    unfolding flPos_def u using ulp_pos[of y] by (simp add: mult_right_mono)
next
  case False
  with floorLog2_mono[OF assms] have "floorLog2 x + 1 \<le> floorLog2 y" by simp
  then have "(2::rat) powi (floorLog2 x + 1) \<le> 2 powi floorLog2 y"
    by (rule power_int_increasing) simp
  moreover have "0 < y" using assms by simp
  ultimately show ?thesis
    using flPos_upper[OF assms(1)] flPos_lower[of y] by simp
qed

lemma fl_mono:
  assumes "x \<le> y"
  shows "fl x \<le> fl y"
proof -
  consider "0 < x" | "x = 0" | "x < 0" "y < 0" | "x < 0" "0 \<le> y" by linarith
  then show ?thesis
  proof cases
    case 1
    with assms flPos_mono[OF 1 assms] show ?thesis by (simp add: fl_def)
  next
    case 2
    with assms flPos_pos[of y] show ?thesis by (cases "y = 0") (simp_all add: fl_def)
  next
    case 3
    with assms flPos_mono[of "- y" "- x"] show ?thesis by (simp add: fl_def)
  next
    case 4
    with flPos_pos[of "- x"] flPos_pos[of y] show ?thesis
      by (cases "y = 0") (simp_all add: fl_def)
  qed
qed

lemma fl_nonneg: "0 \<le> x \<Longrightarrow> 0 \<le> fl x"
  using fl_mono[of 0 x] by (simp add: fl_def)

text \<open>A number with a 53-bit significand is a double: rounding leaves it as it is.\<close>

lemma fl_exact:
  assumes "0 < x" and "x / ulp x = of_int k"
  shows "fl x = x"
proof -
  have "flPos x = of_int k * ulp x" by (simp add: flPos_def assms(2))
  also have "\<dots> = x" using assms(2) ulp_pos[of x] by (simp add: field_simps)
  finally show ?thesis using assms(1) by (simp add: fl_def)
qed

lemma fl_scaled:
  assumes "2 ^ 52 \<le> k" and "k \<le> 2 ^ 53"
  shows "fl (of_int k * 2 powi e) = of_int k * 2 powi e"
proof (cases "k = 2 ^ 53")
  case True
  let ?x = "of_int k * 2 powi e :: rat"
  have x: "?x = 2 powi (e + 53)" using True by (simp add: power_int_add)
  have pos: "0 < ?x" unfolding x by simp
  have "floorLog2 ?x = e + 53"
    by (rule floorLog2_unique[OF pos]) (simp_all add: x power_int_add)
  then have "floorLog2 ?x - 52 = e + 1" by simp
  then have "ulp ?x = 2 powi (e + 1)" by (simp only: ulp_def)
  then have "?x / ulp ?x = of_int (2 ^ 52)"
    unfolding x by (simp add: power_int_add)
  with pos show ?thesis by (rule fl_exact)
next
  case False
  let ?x = "of_int k * 2 powi e :: rat"
  from assms have kpos: "0 < k" by (smt (verit) zero_less_power)
  then have pos: "0 < ?x" by simp
  from False assms have k: "k < 2 ^ 53" by simp
  have "floorLog2 ?x = e + 52"
  proof (rule floorLog2_unique[OF pos])
    have "(2::rat) ^ 52 \<le> of_int k" using assms(1) by (metis of_int_le_iff of_int_numeral of_int_power)
    then show "2 powi (e + 52) \<le> ?x"
      by (simp add: power_int_add mult.commute mult_left_mono)
    have "of_int k < (2::rat) ^ 53" using k by (metis of_int_less_iff of_int_numeral of_int_power)
    then show "?x < 2 powi (e + 52 + 1)"
      by (simp add: power_int_add mult.commute)
  qed
  then have "ulp ?x = 2 powi e" by (simp add: ulp_def)
  then have "?x / ulp ?x = of_int k" by simp
  with pos show ?thesis by (rule fl_exact)
qed

lemma fl_idem: "fl (fl x) = fl x"
proof -
  have pos: "fl (flPos x) = flPos x" if "0 < x" for x
    unfolding flPos_def ulp_def
    by (rule fl_scaled) (use roundHalfEven_significand[OF that] in \<open>simp_all add: ulp_def\<close>)
  have neg: "fl (- y) = - fl y" for y
    by (simp add: fl_def)
  show ?thesis
  proof (cases "x = 0")
    case True
    then show ?thesis by (simp add: fl_def)
  next
    case nz: False
    show ?thesis
    proof (cases "0 < x")
      case True
      with pos[OF True] show ?thesis by (simp add: fl_def)
    next
      case False
      with nz have "0 < - x" by simp
      from pos[OF this] have p: "fl (flPos (- x)) = flPos (- x)" .
      have "fl x = - flPos (- x)" using False nz by (simp add: fl_def)
      then show ?thesis by (simp only: neg p)
    qed
  qed
qed

text \<open>The natural numbers up to \<open>2^53\<close> are doubles.\<close>

lemma fl_of_nat:
  assumes "n \<le> 2 ^ 53"
  shows "fl (of_nat n) = of_nat n"
proof (cases "n = 0")
  case True
  then show ?thesis by (simp add: fl_def)
next
  case False
  let ?x = "of_nat n :: rat"
  from False have pos: "0 < ?x" by simp
  have up: "?x \<le> 2 ^ 53"
    using assms by (metis of_nat_le_iff of_nat_numeral of_nat_power)
  have e0: "0 \<le> floorLog2 ?x"
  proof -
    have "floorLog2 (1::rat) = 0"
      by (rule floorLog2_unique) simp_all
    moreover have "(1::rat) \<le> ?x" using False by simp
    ultimately show ?thesis using floorLog2_mono[of 1 ?x] by simp
  qed
  have e1: "floorLog2 ?x \<le> 53"
  proof -
    have "floorLog2 ((2::rat) ^ 53) = 53"
      by (rule floorLog2_unique) (simp_all add: power_int_add)
    with floorLog2_mono[OF pos up] show ?thesis by simp
  qed
  show ?thesis
  proof (cases "floorLog2 ?x = 53")
    case True
    have "2 powi 53 \<le> ?x" using floorLog2_lower[OF pos] unfolding True .
    with up have "?x = 2 ^ 53" by simp
    moreover have "fl (of_int (2 ^ 53) * 2 powi 0) = of_int (2 ^ 53) * 2 powi 0"
      by (rule fl_scaled) simp_all
    ultimately show ?thesis by simp
  next
    case False
    with e1 have "floorLog2 ?x \<le> 52" by simp
    then obtain j where j: "52 - floorLog2 ?x = int j"
      by (metis diff_ge_0_iff_ge nonneg_int_cases)
    then have "floorLog2 ?x - 52 = - int j" by simp
    then have "ulp ?x = 2 powi (- int j)" by (simp only: ulp_def)
    then have "ulp ?x = 1 / 2 ^ j" by (simp add: power_int_minus_divide)
    then have "?x / ulp ?x = ?x * 2 ^ j" by simp
    then have "?x / ulp ?x = of_int (int (n * 2 ^ j))" by simp
    with pos show ?thesis by (rule fl_exact)
  qed
qed

lemma fl_0 [simp]: "fl 0 = 0"
  by (simp add: fl_def)

lemma fl_1 [simp]: "fl 1 = 1"
  using fl_of_nat[of 1] by simp

subsection \<open>Rounding on numerals\<close>

text \<open>Rewrite rules that compute \<open>fl\<close> on a fraction of two numerals.\<close>

lemma roundHalfEven_frac:
  fixes a b :: int
  assumes "0 < b"
  shows "roundHalfEven (of_int a / of_int b) =
     (if 2 * (a mod b) < b then a div b
      else if b < 2 * (a mod b) then a div b + 1
      else if even (a div b) then a div b
      else a div b + 1)"
proof -
  have f: "\<lfloor>of_int a / of_int b :: rat\<rfloor> = a div b"
    by (rule floor_divide_of_int_eq)
  have b: "(0::rat) < of_int b" using assms by simp
  have "(of_int a :: rat) = of_int (a div b * b + a mod b)" by (simp only: div_mult_mod_eq)
  also have "\<dots> = of_int (a div b) * of_int b + of_int (a mod b)"
    by (simp only: of_int_add of_int_mult)
  finally have d: "(of_int a / of_int b :: rat) - of_int (a div b) = of_int (a mod b) / of_int b"
    using b by (simp add: field_simps)
  have l: "(of_int (a mod b) / of_int b < (1 / 2 :: rat)) \<longleftrightarrow> 2 * (a mod b) < b"
  proof -
    have "(of_int (a mod b) / of_int b < (1 / 2 :: rat)) \<longleftrightarrow>
            (of_int (2 * (a mod b)) :: rat) < of_int b"
      using b by (simp add: field_simps)
    also have "\<dots> \<longleftrightarrow> 2 * (a mod b) < b" by (simp only: of_int_less_iff)
    finally show ?thesis .
  qed
  have g: "((1 / 2 :: rat) < of_int (a mod b) / of_int b) \<longleftrightarrow> b < 2 * (a mod b)"
  proof -
    have "((1 / 2 :: rat) < of_int (a mod b) / of_int b) \<longleftrightarrow>
            (of_int b :: rat) < of_int (2 * (a mod b))"
      using b by (simp add: field_simps)
    also have "\<dots> \<longleftrightarrow> b < 2 * (a mod b)" by (simp only: of_int_less_iff)
    finally show ?thesis .
  qed
  show ?thesis
    by (simp only: roundHalfEven_def f d l g)
qed

lemma roundHalfEven_numeral:
  "roundHalfEven (numeral a / numeral b) =
     (if 2 * (numeral a mod numeral b) < (numeral b :: int) then numeral a div numeral b
      else if (numeral b :: int) < 2 * (numeral a mod numeral b) then numeral a div numeral b + 1
      else if even (numeral a div numeral b :: int) then numeral a div numeral b
      else numeral a div numeral b + 1)"
  using roundHalfEven_frac[of "numeral b" "numeral a"] by (simp only: of_int_numeral zero_less_numeral)

lemma roundHalfEven_numeral_int: "roundHalfEven (numeral a) = numeral a"
  using roundHalfEven_of_int[of "numeral a"] by (simp only: of_int_numeral)

lemma floor_rat_numeral: "\<lfloor>numeral a / numeral b :: rat\<rfloor> = numeral a div numeral b"
  using floor_divide_of_int_eq[of "numeral a" "numeral b", where ?'a = rat]
  by (simp only: of_int_numeral)

lemma ceiling_rat_numeral: "\<lceil>numeral a / numeral b :: rat\<rceil> = - (- numeral a div numeral b)"
proof -
  have "\<lceil>numeral a / numeral b :: rat\<rceil> = - \<lfloor>- (numeral a / numeral b) :: rat\<rfloor>"
    by (simp only: ceiling_def)
  also have "- (numeral a / numeral b :: rat) = of_int (- numeral a) / of_int (numeral b)"
    by simp
  also have "\<lfloor>\<dots>\<rfloor> = - numeral a div numeral b"
    by (rule floor_divide_of_int_eq)
  finally show ?thesis .
qed

lemmas fl_eval = fl_def flPos_def ulp_def floorLog2_def roundHalfEven_numeral
  roundHalfEven_numeral_int bitLength.simps power_int_minus_divide
  floor_rat_numeral ceiling_rat_numeral

lemma fl_threshold: "fl 0.92 = 8286623314361713 / 2 ^ 53"
  by (simp add: fl_eval)

lemma fl_threshold_bounds: "0 < fl 0.92" "0.92 \<le> fl 0.92" "fl 0.92 \<le> 1"
  unfolding fl_threshold by simp_all

lemma fl_confidences:
  "fl 0.92 \<le> fl 0.97" "fl 0.92 \<le> fl 0.98" "fl 0.92 \<le> fl 0.99"
  "fl 0.97 \<le> 1" "fl 0.98 \<le> 1" "fl 0.99 \<le> 1"
  using fl_mono[where x = "0.92" and y = "0.97"] fl_mono[where x = "0.92" and y = "0.98"]
    fl_mono[where x = "0.92" and y = "0.99"] fl_mono[where x = "0.97" and y = 1]
    fl_mono[where x = "0.98" and y = 1] fl_mono[where x = "0.99" and y = 1]
  by simp_all

text \<open>Beyond \<open>2^53\<close> adding one changes nothing: \<open>2^53 + 1\<close> is a tie and rounds to \<open>2^53\<close>.\<close>

lemma fl_saturated: "fl (2 ^ 53 + 1) = 2 ^ 53"
  by (simp add: fl_eval)


section \<open>Properties of the sequence matcher\<close>

subsection \<open>The strict passes\<close>

lemma matchesAt_linesEqualUnder:
  "matchesAt lines pattern i (\<lambda>a b. nf a = nf b) = linesEqualUnder nf lines pattern i"
proof -
  have "matchesAt lines pattern i (\<lambda>a b. nf a = nf b) \<longleftrightarrow>
          (\<forall>j < length pattern. nf (lines ! (i + j)) = nf (pattern ! j))"
  proof (induction pattern arbitrary: i)
    case Nil
    show ?case by simp
  next
    case (Cons p ps)
    show ?case
      by (auto simp: Cons.IH less_Suc_eq_0_disj)
  qed
  then show ?thesis
    by (auto simp: linesEqualUnder_def list_all_iff)
qed

lemma seekPass_find:
  "seekPass lines pattern compare i maxStart =
     find (\<lambda>k. matchesAt lines pattern k compare) [i ..< Suc maxStart]"
proof (induction lines pattern compare i maxStart rule: seekPass.induct)
  case (1 lines pattern compare i maxStart)
  show ?case
  proof (cases "i \<le> maxStart")
    case True
    then have "[i ..< Suc maxStart] = i # [Suc i ..< Suc maxStart]"
      by (simp add: upt_conv_Cons)
    with True 1 show ?thesis
      by (subst seekPass.simps) (simp del: upt_Suc)
  next
    case False
    then show ?thesis by (subst seekPass.simps) simp
  qed
qed

lemma seekPass_strict:
  "seekPass lines pattern (\<lambda>a b. nf a = nf b) i maxStart =
     find (linesEqualUnder nf lines pattern) [i ..< Suc maxStart]"
  by (simp only: seekPass_find matchesAt_linesEqualUnder)

subsection \<open>Levenshtein distance\<close>

lemma levRow_levPrefix:
  assumes "j \<le> length b"
  shows "levRow (a ! k) (drop j b) (map (levPrefix a b k) [j ..< Suc (length b)])
           (levPrefix a b (Suc k) j)
         = map (levPrefix a b (Suc k)) [Suc j ..< Suc (length b)]"
  using assms
proof (induction "length b - j" arbitrary: j)
  case 0
  then have "j = length b" by simp
  then show ?case by simp
next
  case (Suc n)
  then have lt: "j < length b" by simp
  then have d: "drop j b = b ! j # drop (Suc j) b"
    by (simp add: Cons_nth_drop_Suc)
  have u: "[j ..< Suc (length b)] = j # Suc j # [Suc (Suc j) ..< Suc (length b)]"
    using lt by (simp add: upt_conv_Cons)
  have u': "[Suc j ..< Suc (length b)] = Suc j # [Suc (Suc j) ..< Suc (length b)]"
    using lt by (simp add: upt_conv_Cons)
  have ih: "levRow (a ! k) (drop (Suc j) b) (map (levPrefix a b k) [Suc j ..< Suc (length b)])
              (levPrefix a b (Suc k) (Suc j))
            = map (levPrefix a b (Suc k)) [Suc (Suc j) ..< Suc (length b)]"
    using Suc.hyps(1)[of "Suc j"] Suc.hyps(2) lt by simp
  show ?case
    unfolding d u
    apply (simp only: list.map levRow.simps Let_def)
    apply (subst u')
    apply (simp only: list.map)
    using ih unfolding u' by (simp add: min.commute min.left_commute add.commute)
qed

lemma levRows_levPrefix:
  assumes "k \<le> length a"
  shows "levRows (drop k a) b (Suc k) (map (levPrefix a b k) [0 ..< Suc (length b)])
         = map (levPrefix a b (length a)) [0 ..< Suc (length b)]"
  using assms
proof (induction "length a - k" arbitrary: k)
  case 0
  then show ?case by simp
next
  case (Suc n)
  then have lt: "k < length a" by simp
  then have d: "drop k a = a ! k # drop (Suc k) a"
    by (simp add: Cons_nth_drop_Suc)
  have row: "Suc k # levRow (a ! k) b (map (levPrefix a b k) [0 ..< Suc (length b)]) (Suc k)
             = map (levPrefix a b (Suc k)) [0 ..< Suc (length b)]"
    using levRow_levPrefix[of 0 b a k] by (simp add: upt_conv_Cons del: upt_Suc)
  show ?case
    unfolding d levRows.simps row
    using Suc.hyps(1)[of "Suc k"] Suc.hyps(2) lt by simp
qed

lemma levPrefix_same: "levPrefix a a i i = 0"
  by (induction i) simp_all

lemma levenshteinDistance_levPrefix:
  "levenshteinDistance a b = levPrefix a b (length a) (length b)"
proof -
  have init: "[0 ..< length b + 1] = map (levPrefix a b 0) [0 ..< Suc (length b)]"
    by (simp add: map_idI del: upt_Suc)
  have "last (levRows a b 1 [0 ..< length b + 1]) = levPrefix a b (length a) (length b)"
    unfolding init using levRows_levPrefix[of 0 a b]
    by (simp add: last_map del: upt_Suc)
  moreover have "levPrefix a b (length a) 0 = length a"
    by (cases "length a") simp_all
  ultimately show ?thesis
    by (auto simp: levenshteinDistance_def levPrefix_same)
qed

lemma levPrefix_le_max: "levPrefix a b i j \<le> max i j"
proof (induction a b i j rule: levPrefix.induct)
  case (3 a b i j)
  have "levPrefix a b (Suc i) (Suc j) \<le> levPrefix a b i j + 1"
    by (auto simp: min_le_iff_disj)
  with 3(3) show ?case by simp
qed simp_all

lemma levenshteinDistance_le: "levenshteinDistance a b \<le> max (length a) (length b)"
  unfolding levenshteinDistance_levPrefix by (rule levPrefix_le_max)

lemma similarityScore_lineSimilarity: "similarityScore a b = lineSimilarity a b"
  by (auto simp: similarityScore_def lineSimilarity_def levenshteinDistance_levPrefix Let_def)

subsection \<open>The fuzzy pass\<close>

lemma fuzzyTotal_foldl:
  "fuzzyTotal lines pattern i t =
     foldl (\<lambda>t s. fl (t + s)) t
       (map (\<lambda>j. lineSimilarity (normalizeLineForFuzzy (lines ! (i + j)))
                                 (normalizeLineForFuzzy (pattern ! j)))
            [0 ..< length pattern])"
proof (induction pattern arbitrary: i t)
  case Nil
  show ?case by simp
next
  case (Cons p ps)
  have "[0 ..< length (p # ps)] = 0 # map Suc [0 ..< length ps]"
    by (simp add: upt_conv_Cons map_Suc_upt del: upt_Suc)
  then show ?case
    by (simp add: Cons.IH similarityScore_lineSimilarity comp_def del: upt_Suc)
qed

lemma fuzzyScoreAt_meanSimilarity: "fuzzyScoreAt lines pattern i = meanSimilarity lines pattern i"
  by (simp add: fuzzyScoreAt_def meanSimilarity_def doubleSum_def fuzzyTotal_foldl)

lemma fuzzyLoop_fold:
  "fuzzyLoop lines pattern i stop best =
     fold (fuzzyStep (fuzzyScoreAt lines pattern)) [i ..< stop] best"
proof (induction lines pattern i stop best rule: fuzzyLoop.induct)
  case (1 lines pattern i stop best)
  show ?case
  proof (cases "i < stop")
    case True
    have step: "(if snd best < fuzzyScoreAt lines pattern i
                 then (Some i, fuzzyScoreAt lines pattern i) else best)
                = fuzzyStep (fuzzyScoreAt lines pattern) i best"
      by (simp add: fuzzyStep_def)
    have "fuzzyLoop lines pattern i stop best =
            fuzzyLoop lines pattern (Suc i) stop (fuzzyStep (fuzzyScoreAt lines pattern) i best)"
      by (subst fuzzyLoop.simps) (simp only: True if_True Let_def step)
    also have "\<dots> = fold (fuzzyStep (fuzzyScoreAt lines pattern)) [Suc i ..< stop]
                        (fuzzyStep (fuzzyScoreAt lines pattern) i best)"
      using 1[OF True refl] unfolding step .
    also have "\<dots> = fold (fuzzyStep (fuzzyScoreAt lines pattern)) [i ..< stop] best"
      using True by (simp add: upt_conv_Cons)
    finally show ?thesis .
  next
    case False
    then show ?thesis by (subst fuzzyLoop.simps) simp
  qed
qed

lemma fold_fuzzyStep_snd:
  "snd (fold (fuzzyStep score) cands best) = Max (insert (snd best) (score ` set cands))"
proof (induction cands arbitrary: best)
  case Nil
  show ?case by simp
next
  case (Cons c cs)
  have "snd (fuzzyStep score c best) = max (snd best) (score c)"
    by (simp add: fuzzyStep_def max_def)
  moreover have "Max (insert a (insert x S)) = Max (insert (max a x) S)" if "finite S" for a x :: rat and S
    using that by (cases "S = {}") (simp_all add: max.assoc)
  ultimately show ?case
    by (simp add: Cons.IH)
qed

lemma find_isBest_skip:
  assumes "b \<in> set cs" "score c < score b"
  shows "find (isBest score (c # cs)) (c # cs) = find (isBest score cs) cs"
proof -
  have "find (isBest score (c # cs)) cs = find (isBest score cs) cs"
  proof (rule find_cong[OF refl])
    fix x assume "x \<in> set cs"
    show "isBest score (c # cs) x = isBest score cs x"
      using assms by (auto simp: isBest_def list_all_iff intro: order_trans less_imp_le)
  qed
  moreover have "\<not> isBest score (c # cs) c"
    using assms by (auto simp: isBest_def list_all_iff not_le)
  ultimately show ?thesis by simp
qed

lemma fold_fuzzyStep_fst:
  "fst (fold (fuzzyStep score) cands best) =
     (if \<forall>i \<in> set cands. score i \<le> snd best then fst best
      else find (isBest score cands) cands)"
proof (induction cands arbitrary: best)
  case Nil
  show ?case by simp
next
  case (Cons c cs)
  show ?case
  proof (cases "score c > snd best")
    case True
    then have st: "fuzzyStep score c best = (Some c, score c)"
      by (simp add: fuzzyStep_def)
    have "fst (fold (fuzzyStep score) cs (Some c, score c)) = find (isBest score (c # cs)) (c # cs)"
    proof (cases "\<forall>i \<in> set cs. score i \<le> score c")
      case True
      then have "isBest score (c # cs) c" by (simp add: isBest_def list_all_iff)
      with True show ?thesis by (simp add: Cons.IH)
    next
      case False
      then obtain b where b: "b \<in> set cs" "score c < score b" by (auto simp: not_le)
      have "fst (fold (fuzzyStep score) cs (Some c, score c)) = find (isBest score cs) cs"
        unfolding Cons.IH using False by auto
      with find_isBest_skip[OF b] show ?thesis by simp
    qed
    with st True show ?thesis by auto
  next
    case False
    then have st: "fuzzyStep score c best = best"
      by (simp add: fuzzyStep_def)
    show ?thesis
    proof (cases "\<forall>i \<in> set cs. score i \<le> snd best")
      case True
      with st False show ?thesis by (simp add: Cons.IH)
    next
      case nall: False
      then obtain b where b: "b \<in> set cs" "snd best < score b" by (auto simp: not_le)
      with False have cb: "score c < score b" by simp
      have "fst (fold (fuzzyStep score) cs best) = find (isBest score cs) cs"
        unfolding Cons.IH using nall by auto
      then show ?thesis
        using st find_isBest_skip[OF b(1) cb] nall by auto
    qed
  qed
qed

lemma find_isBest_Max:
  assumes "find (isBest score cands) cands = Some k"
  shows "k \<in> set cands" and "score k = Max (score ` set cands)"
proof -
  from assms obtain i where i: "i < length cands" "cands ! i = k" "isBest score cands k"
    by (auto simp: find_Some_iff)
  then show k: "k \<in> set cands" by auto
  have "\<forall>x \<in> set cands. score x \<le> score k"
    using i(3) by (simp add: isBest_def list_all_iff)
  with k show "score k = Max (score ` set cands)"
    by (intro Max_eqI[symmetric]) auto
qed

text \<open>The outcome of the fuzzy loops, started from \<open>(undefined, 0)\<close>, as the cascade words it.\<close>

lemma fuzzy_outcome:
  fixes score :: "nat \<Rightarrow> rat" and cands :: "nat list"
  defines "best \<equiv> fold (fuzzyStep score) cands (None, 0)"
  assumes T: "0 < T"
  shows "(if fst best \<noteq> None \<and> snd best \<ge> T then Some (the (fst best), snd best) else None)
         = (case find (isBest score cands) cands of
              None \<Rightarrow> None
            | Some k \<Rightarrow> if score k \<ge> T then Some (k, score k) else None)"
proof (cases "find (isBest score cands) cands")
  case None
  then have "fst best = None"
    by (simp add: best_def fold_fuzzyStep_fst)
  with None show ?thesis by simp
next
  case (Some k)
  note mx = find_isBest_Max[OF Some]
  have sb: "snd best = max 0 (score k)"
    using mx by (cases "set cands = {}") (auto simp: best_def fold_fuzzyStep_snd)
  show ?thesis
  proof (cases "\<forall>i \<in> set cands. score i \<le> 0")
    case True
    then have "fst best = None" by (simp add: best_def fold_fuzzyStep_fst)
    moreover from True mx(1) have "score k \<le> 0" by simp
    ultimately show ?thesis using Some T by simp
  next
    case False
    then have fb: "fst best = Some k" using Some by (simp add: best_def fold_fuzzyStep_fst)
    from False obtain i where "i \<in> set cands" "0 < score i" by (auto simp: not_le)
    then have "0 < score k" using mx(2) by (metis Max_ge finite_imageI finite_set imageI less_le_trans)
    with sb have "snd best = score k" by simp
    with fb Some show ?thesis by simp
  qed
qed

lemma seekPass_exact:
  "seekPass lines pattern (\<lambda>a b. a = b) i maxStart =
     find (linesEqualUnder (\<lambda>s. s) lines pattern) [i ..< Suc maxStart]"
  using seekPass_strict[where nf = "\<lambda>s. s"] by simp

lemma fuzzyScoreAt_eq: "fuzzyScoreAt lines pattern = meanSimilarity lines pattern"
  by (rule ext) (rule fuzzyScoreAt_meanSimilarity)

text \<open>The two fuzzy loops of \<open>seekSequence\<close> are one fold over the fuzzy candidates.\<close>

lemma fuzzy_loops_fold:
  fixes lines pattern :: "jstring list" and start :: nat and eof :: bool
  assumes "length pattern \<le> length lines"
  defines "maxStart \<equiv> length lines - length pattern"
  defines "searchStart \<equiv> (if eof \<and> length lines \<ge> length pattern then maxStart else start)"
  defines "best1 \<equiv> fuzzyLoop lines pattern searchStart (Suc maxStart) (None, 0)"
  shows "(if eof \<and> searchStart > start then fuzzyLoop lines pattern start searchStart best1 else best1)
         = fold (fuzzyStep (meanSimilarity lines pattern))
             (fuzzyCandidates lines pattern start eof) (None, 0)"
proof (cases eof)
  case False
  then show ?thesis
    by (simp add: best1_def searchStart_def maxStart_def fuzzyCandidates_def fuzzyLoop_fold
        fuzzyScoreAt_eq del: upt_Suc)
next
  case True
  have one: "[maxStart ..< Suc maxStart] = [maxStart]" by simp
  show ?thesis
  proof (cases "maxStart > start")
    case gt: True
    with True assms(1) show ?thesis
      by (simp add: best1_def searchStart_def maxStart_def [symmetric] fuzzyCandidates_def
          fuzzyLoop_fold fuzzyScoreAt_eq one del: upt_Suc)
  next
    case le: False
    then have "[start ..< maxStart] = []" by simp
    with True le assms(1) show ?thesis
      by (simp add: best1_def searchStart_def maxStart_def [symmetric] fuzzyCandidates_def
          fuzzyLoop_fold fuzzyScoreAt_eq one del: upt_Suc)
  qed
qed

lemma strict_window:
  assumes "length pattern \<le> length lines"
  shows "[(if eof \<and> length lines \<ge> length pattern then length lines - length pattern else start)
           ..< Suc (length lines - length pattern)]
         = strictCandidates lines pattern start eof"
  using assms by (simp add: strictCandidates_def)

lemma found_simps:
  "found \<lparr>index = Some i, confidence = c\<rparr> = Some (i, c)"
  "found \<lparr>index = None, confidence = c\<rparr> = None"
  by (simp_all add: found_def)


text \<open>The loops of \<open>seekSequence\<close> compute the cascade over the candidate positions.\<close>

lemma seek_cascade_general:
  assumes "pattern \<noteq> []" and "length pattern \<le> length lines"
  shows "found (seekSequence lines pattern start eof) =
           seekCascade lines pattern (strictCandidates lines pattern start eof)
             (fuzzyCandidates lines pattern start eof)"
proof -
  let ?strict = "strictCandidates lines pattern start eof"
  let ?fuzzy = "fuzzyCandidates lines pattern start eof"
  let ?best = "fold (fuzzyStep (meanSimilarity lines pattern)) ?fuzzy (None, 0)"
  have T: "0 < fl 0.92" by (rule fl_threshold_bounds)
  have fz: "found (if fst ?best \<noteq> None \<and> snd ?best \<ge> fl 0.92
                   then \<lparr>index = fst ?best, confidence = snd ?best\<rparr>
                   else \<lparr>index = None, confidence = snd ?best\<rparr>)
            = (case find (isBest (meanSimilarity lines pattern) ?fuzzy) ?fuzzy of
                 None \<Rightarrow> None
               | Some k \<Rightarrow> if meanSimilarity lines pattern k \<ge> fl 0.92
                           then Some (k, meanSimilarity lines pattern k) else None)"
    using fuzzy_outcome[OF T, of "meanSimilarity lines pattern" ?fuzzy]
    by (auto simp: found_def)
  have len: "\<not> length lines < length pattern" "length pattern \<noteq> 0"
    using assms by auto
  show ?thesis
    unfolding seekSequence_def Let_def FUZZY_THRESHOLD_def
    apply (simp only: len if_False seekPass_exact seekPass_strict strict_window[OF assms(2)]
        fuzzy_loops_fold[OF assms(2), unfolded Let_def])
    apply (simp only: seekCascade_def)
    apply (cases "find (linesEqualUnder (\<lambda>s. s) lines pattern) ?strict")
     prefer 2 apply (simp add: found_simps)
    apply (cases "find (linesEqualUnder trimEnd lines pattern) ?strict")
     prefer 2 apply (simp add: found_simps)
    apply (cases "find (linesEqualUnder trim lines pattern) ?strict")
     prefer 2 apply (simp add: found_simps)
    apply (cases "find (linesEqualUnder normalizeUnicode lines pattern) ?strict")
     prefer 2 apply (simp add: found_simps)
    apply (simp only: option.case fz)
    done
qed

subsection \<open>Bounds on the scores\<close>

lemma fl_unit:
  assumes "0 \<le> x" and "x \<le> 1"
  shows "0 \<le> fl x" and "fl x \<le> 1"
  using fl_mono[OF assms(1)] fl_mono[OF assms(2)] by simp_all

lemma similarityScore_bounds:
  "0 \<le> similarityScore a b" "similarityScore a b \<le> 1"
proof -
  let ?m = "max (length a) (length b)"
  let ?q = "of_nat (levenshteinDistance a b) / of_nat ?m :: rat"
  have both: "0 \<le> fl (1 - fl ?q) \<and> fl (1 - fl ?q) \<le> 1"
  proof (cases "?m = 0")
    case True
    then show ?thesis by simp
  next
    case False
    then have "0 < ?m" by (rule neq0_conv[THEN iffD1])
    then have m: "0 < (of_nat ?m :: rat)" by (simp only: of_nat_0_less_iff)
    have "(of_nat (levenshteinDistance a b) :: rat) \<le> of_nat ?m"
      using levenshteinDistance_le[of a b] by (simp only: of_nat_le_iff)
    with m have q: "0 \<le> ?q" "?q \<le> 1" by simp_all
    note f = fl_unit[OF q]
    from f have "0 \<le> 1 - fl ?q" "1 - fl ?q \<le> 1" by simp_all
    from fl_unit[OF this] show ?thesis by simp
  qed
  from both show "0 \<le> similarityScore a b" by (auto simp: similarityScore_def Let_def)
  from both show "similarityScore a b \<le> 1" by (auto simp: similarityScore_def Let_def)
qed

lemma similarityScore_le_1: "similarityScore a b \<le> 1"
  by (rule similarityScore_bounds)

text \<open>
  A sum of \<open>k\<close> similarities is at most \<open>k\<close>, and at most \<open>2^53\<close>, where the double sum
  stops growing.
\<close>

lemma fl_add_cap:
  assumes "0 \<le> t" and "t \<le> of_nat (min k (2 ^ 53))" and "0 \<le> s" and "s \<le> 1"
  shows "0 \<le> fl (t + s)" and "fl (t + s) \<le> of_nat (min (Suc k) (2 ^ 53))"
proof -
  from assms show "0 \<le> fl (t + s)" by (intro fl_nonneg) simp
  show "fl (t + s) \<le> of_nat (min (Suc k) (2 ^ 53))"
  proof (cases "k < 2 ^ 53")
    case True
    then have k: "min k (2 ^ 53) = k" "min (Suc k) (2 ^ 53) = Suc k" by simp_all
    from assms(2,4) have "t + s \<le> of_nat (Suc k)" unfolding k by simp
    then have "fl (t + s) \<le> fl (of_nat (Suc k))" by (rule fl_mono)
    also have "\<dots> = of_nat (Suc k)" using True by (intro fl_of_nat) simp
    finally show ?thesis unfolding k .
  next
    case False
    then have k: "min k (2 ^ 53) = 2 ^ 53" "min (Suc k) (2 ^ 53) = 2 ^ 53" by simp_all
    from assms(2,4) have "t + s \<le> 2 ^ 53 + 1" unfolding k by simp
    then have "fl (t + s) \<le> fl (2 ^ 53 + 1)" by (rule fl_mono)
    then show ?thesis unfolding k fl_saturated by simp
  qed
qed

lemma fuzzyTotal_bounds:
  assumes "0 \<le> t" and "t \<le> of_nat (min k (2 ^ 53))"
  shows "0 \<le> fuzzyTotal lines pattern i t"
    and "fuzzyTotal lines pattern i t \<le> of_nat (min (k + length pattern) (2 ^ 53))"
  using assms
proof (induction pattern arbitrary: i t k)
  case Nil
  {
    case 1
    then show ?case by simp
  next
    case 2
    then show ?case by simp
  }
next
  case (Cons p ps)
  let ?s = "similarityScore (normalizeLineForFuzzy (lines ! i)) (normalizeLineForFuzzy p)"
  {
    case 1
    note c = fl_add_cap[OF 1 similarityScore_bounds[of "normalizeLineForFuzzy (lines ! i)"
          "normalizeLineForFuzzy p"]]
    from Cons.IH(1)[OF c] show ?case by simp
  next
    case 2
    note c = fl_add_cap[OF 2 similarityScore_bounds[of "normalizeLineForFuzzy (lines ! i)"
          "normalizeLineForFuzzy p"]]
    from Cons.IH(2)[OF c] show ?case by simp
  }
qed

lemma fuzzyScoreAt_bounds:
  "0 \<le> fuzzyScoreAt lines pattern i" "fuzzyScoreAt lines pattern i \<le> 1"
proof -
  let ?t = "fuzzyTotal lines pattern i 0"
  have t: "0 \<le> ?t" "?t \<le> of_nat (min (0 + length pattern) (2 ^ 53))"
    by (rule fuzzyTotal_bounds; simp)+
  have "(of_nat (min (length pattern) (2 ^ 53)) :: rat) \<le> of_nat (length pattern)"
    by simp
  with t(2) have le: "?t \<le> of_nat (length pattern)" by simp
  have q: "0 \<le> ?t / of_nat (length pattern)" "?t / of_nat (length pattern) \<le> 1"
    using t(1) le by (simp_all add: divide_le_eq_1)
  from fl_unit[OF q] show "0 \<le> fuzzyScoreAt lines pattern i" "fuzzyScoreAt lines pattern i \<le> 1"
    by (simp_all add: fuzzyScoreAt_def)
qed

lemma fuzzyScoreAt_le_1: "fuzzyScoreAt lines pattern i \<le> 1"
  by (rule fuzzyScoreAt_bounds)

lemma fold_fuzzyStep_Some:
  "fst best \<noteq> None \<Longrightarrow> fst (fold (fuzzyStep score) cands best) \<noteq> None"
  by (induction cands arbitrary: best) (auto simp: fuzzyStep_def)

lemma fold_fuzzyStep_None:
  "fst (fold (fuzzyStep score) cands best) = None \<Longrightarrow>
     snd (fold (fuzzyStep score) cands best) = snd best"
proof (induction cands arbitrary: best)
  case Nil
  then show ?case by simp
next
  case (Cons c cs)
  show ?case
  proof (cases "score c > snd best")
    case True
    then have "fuzzyStep score c best = (Some c, score c)" by (simp add: fuzzyStep_def)
    with Cons.prems fold_fuzzyStep_Some[of "(Some c, score c)" score cs] show ?thesis by simp
  next
    case False
    then have "fuzzyStep score c best = best" by (simp add: fuzzyStep_def)
    with Cons show ?thesis by simp
  qed
qed

lemma fold_fuzzyStep_bounds:
  assumes "\<forall>i. score i \<le> 1"
  shows "0 \<le> snd (fold (fuzzyStep score) cands (None, 0))"
    and "snd (fold (fuzzyStep score) cands (None, 0)) \<le> 1"
  using assms by (simp_all add: fold_fuzzyStep_snd)

lemma fold_fuzzyStep_range:
  "snd (fold (fuzzyStep score) cands (None, 0)) = 0 \<or>
   (\<exists>k \<in> set cands. snd (fold (fuzzyStep score) cands (None, 0)) = score k)"
proof -
  have "Max (insert 0 (score ` set cands)) \<in> insert 0 (score ` set cands)"
    by (rule Max_in) simp_all
  then show ?thesis
    unfolding fold_fuzzyStep_snd by auto
qed

text \<open>No double lies between 0.92 and the double that \<^verbatim>\<open>0.92\<close> denotes.\<close>

lemma below_threshold:
  assumes "fl x < fl 0.92"
  shows "fl x < 0.92"
proof (rule ccontr)
  assume "\<not> fl x < 0.92"
  then have "0.92 \<le> fl x" by simp
  then have "fl 0.92 \<le> fl (fl x)" by (rule fl_mono)
  with assms show False by (simp add: fl_idem)
qed

text \<open>The result of \<open>seekSequence\<close> when the pattern is neither empty nor too long.\<close>

lemma seekSequence_unfold:
  fixes lines pattern :: "jstring list" and start :: nat and eof :: bool
  assumes "pattern \<noteq> []" and "length pattern \<le> length lines"
  defines "strict \<equiv> strictCandidates lines pattern start eof"
  defines "best \<equiv> fold (fuzzyStep (meanSimilarity lines pattern))
                     (fuzzyCandidates lines pattern start eof) (None, 0)"
  shows "seekSequence lines pattern start eof =
     (case find (linesEqualUnder (\<lambda>s. s) lines pattern) strict of
        Some i \<Rightarrow> \<lparr>index = Some i, confidence = 1\<rparr>
      | None \<Rightarrow>
     (case find (linesEqualUnder trimEnd lines pattern) strict of
        Some i \<Rightarrow> \<lparr>index = Some i, confidence = fl 0.99\<rparr>
      | None \<Rightarrow>
     (case find (linesEqualUnder trim lines pattern) strict of
        Some i \<Rightarrow> \<lparr>index = Some i, confidence = fl 0.98\<rparr>
      | None \<Rightarrow>
     (case find (linesEqualUnder normalizeUnicode lines pattern) strict of
        Some i \<Rightarrow> \<lparr>index = Some i, confidence = fl 0.97\<rparr>
      | None \<Rightarrow>
          (if fst best \<noteq> None \<and> snd best \<ge> fl 0.92
           then \<lparr>index = fst best, confidence = snd best\<rparr>
           else \<lparr>index = None, confidence = snd best\<rparr>)))))"
proof -
  have len: "\<not> length lines < length pattern" "length pattern \<noteq> 0"
    using assms by auto
  show ?thesis
    unfolding seekSequence_def Let_def FUZZY_THRESHOLD_def best_def strict_def
    by (simp only: len if_False seekPass_exact seekPass_strict strict_window[OF assms(2)]
        fuzzy_loops_fold[OF assms(2), unfolded Let_def])
qed

lemma seekSequence_cases:
  fixes lines pattern :: "jstring list" and start :: nat and eof :: bool
  assumes "pattern \<noteq> []" and "length pattern \<le> length lines"
  defines "r \<equiv> seekSequence lines pattern start eof"
  defines "best \<equiv> fold (fuzzyStep (meanSimilarity lines pattern))
                     (fuzzyCandidates lines pattern start eof) (None, 0)"
  shows "(\<exists>i. r = \<lparr>index = Some i, confidence = 1\<rparr>) \<or>
         (\<exists>i. r = \<lparr>index = Some i, confidence = fl 0.99\<rparr>) \<or>
         (\<exists>i. r = \<lparr>index = Some i, confidence = fl 0.98\<rparr>) \<or>
         (\<exists>i. r = \<lparr>index = Some i, confidence = fl 0.97\<rparr>) \<or>
         r = (if fst best \<noteq> None \<and> snd best \<ge> fl 0.92
              then \<lparr>index = fst best, confidence = snd best\<rparr>
              else \<lparr>index = None, confidence = snd best\<rparr>)"
  unfolding r_def best_def seekSequence_unfold[OF assms(1,2)]
  by (simp split: option.splits)

lemma lineSimilarity_same: "lineSimilarity a a = 1"
  by (simp add: lineSimilarity_def levPrefix_same)

text \<open>Up to \<open>2^53\<close> ones are added without rounding.\<close>

lemma doubleSum_ones:
  assumes "k + n \<le> 2 ^ 53"
  shows "foldl (\<lambda>t s. fl (t + s)) (of_nat k) (replicate n 1) = of_nat (k + n)"
  using assms
proof (induction n arbitrary: k)
  case 0
  show ?case by simp
next
  case (Suc n)
  have "fl (of_nat k + 1) = fl (of_nat (Suc k))" by (simp add: add.commute)
  also have "\<dots> = of_nat (Suc k)" using Suc.prems by (intro fl_of_nat) simp
  finally have "fl (of_nat k + 1) = of_nat (Suc k)" .
  with Suc.IH[of "Suc k"] Suc.prems show ?case by simp
qed

lemma meanSimilarity_exact:
  assumes "pattern \<noteq> []" and "length pattern \<le> 2 ^ 53"
    and "linesEqualUnder (\<lambda>s. s) lines pattern i"
  shows "meanSimilarity lines pattern i = 1"
proof -
  have "map (\<lambda>j. lineSimilarity (normalizeLineForFuzzy (lines ! (i + j)))
                                  (normalizeLineForFuzzy (pattern ! j))) [0 ..< length pattern]
        = map (\<lambda>j. 1) [0 ..< length pattern]"
    using assms(3) by (intro map_cong) (auto simp: linesEqualUnder_def list_all_iff lineSimilarity_same)
  also have "\<dots> = replicate (length pattern) 1"
    by (simp add: map_replicate_const)
  finally have "doubleSum (map (\<lambda>j. lineSimilarity (normalizeLineForFuzzy (lines ! (i + j)))
                                  (normalizeLineForFuzzy (pattern ! j))) [0 ..< length pattern])
        = of_nat (length pattern)"
    using doubleSum_ones[of 0 "length pattern"] assms(2) by (simp add: doubleSum_def)
  then show ?thesis
    using assms(1) unfolding meanSimilarity_def by simp
qed

lemma meanSimilarity_le_1: "meanSimilarity lines pattern i \<le> 1"
  using fuzzyScoreAt_le_1[of lines pattern i] by (simp add: fuzzyScoreAt_meanSimilarity)

lemma find_isBest_exists:
  assumes "cands \<noteq> []"
  shows "\<exists>k. find (isBest score cands) cands = Some k"
proof -
  have "Max (score ` set cands) \<in> score ` set cands"
    using assms by (intro Max_in) auto
  then obtain k where k: "k \<in> set cands" "score k = Max (score ` set cands)" by auto
  then have "isBest score cands k"
    by (auto simp: isBest_def list_all_iff)
  with k(1) show ?thesis
    by (cases "find (isBest score cands) cands") (auto simp: find_None_iff)
qed

text \<open>An exact occurrence among the fuzzy candidates makes the fuzzy pass succeed.\<close>

lemma fuzzy_finds_exact:
  assumes "pattern \<noteq> []" and "length pattern \<le> 2 ^ 53"
    and "i \<in> set cands" and "linesEqualUnder (\<lambda>s. s) lines pattern i"
  shows "\<exists>k. find (isBest (meanSimilarity lines pattern) cands) cands = Some k \<and>
             meanSimilarity lines pattern k = 1"
proof -
  from assms(3) have "cands \<noteq> []" by auto
  from find_isBest_exists[OF this] obtain k
    where k: "find (isBest (meanSimilarity lines pattern) cands) cands = Some k" by blast
  note mx = find_isBest_Max[OF k]
  have "meanSimilarity lines pattern i \<le> meanSimilarity lines pattern k"
    using mx(2) assms(3) by simp
  with meanSimilarity_exact[OF assms(1,2,4)] meanSimilarity_le_1[of lines pattern k]
  have "meanSimilarity lines pattern k = 1" by simp
  with k show ?thesis by simp
qed

lemma seekCascade_Some_exact:
  assumes "pattern \<noteq> []" and "length pattern \<le> 2 ^ 53"
    and "i \<in> set fuzzy" and "linesEqualUnder (\<lambda>s. s) lines pattern i"
  shows "seekCascade lines pattern strict fuzzy \<noteq> None"
proof -
  from fuzzy_finds_exact[OF assms] obtain k
    where "find (isBest (meanSimilarity lines pattern) fuzzy) fuzzy = Some k"
      and "meanSimilarity lines pattern k = 1" by blast
  note k = this
  show ?thesis
  proof
    assume "seekCascade lines pattern strict fuzzy = None"
    with k fl_threshold_bounds(3) show False
      by (simp add: seekCascade_def split: option.splits if_splits)
  qed
qed

text \<open>
  With the end-of-file flag the fuzzy pass scores the end position \<open>e\<close> and then the
  positions from the start index up to \<open>e\<close>. When the pattern occurs exactly at one of
  these, the position kept is \<open>e\<close> or the first of them that scores 1.
\<close>

lemma find_upt_first:
  assumes "find P [s ..< e] = Some k"
  shows "s \<le> k" and "k < e" and "P k" and "\<forall>j. s \<le> j \<and> j < k \<longrightarrow> \<not> P j"
proof -
  from assms obtain n where n: "n < length [s ..< e]" "P ([s ..< e] ! n)" "k = [s ..< e] ! n"
    "\<forall>j < n. \<not> P ([s ..< e] ! j)"
    by (auto simp: find_Some_iff)
  from n(1) have ne: "s + n < e" by simp
  with n(3) have k: "k = s + n" by simp
  from k show "s \<le> k" by simp
  from k ne show "k < e" by simp
  from n(2,3) show "P k" by simp
  show "\<forall>j. s \<le> j \<and> j < k \<longrightarrow> \<not> P j"
  proof (intro allI impI)
    fix j assume j: "s \<le> j \<and> j < k"
    with k have "j - s < n" by linarith
    with n(4) have "\<not> P ([s ..< e] ! (j - s))" by simp
    moreover have "[s ..< e] ! (j - s) = j" using j k ne by simp
    ultimately show "\<not> P j" by simp
  qed
qed

lemma find_end_first:
  assumes "find P (e # [s ..< e]) = Some k" and "s \<le> i" and "i < e" and "P i"
  shows "k = e \<or> (s \<le> k \<and> k \<le> i)"
proof (cases "P e")
  case True
  with assms(1) show ?thesis by simp
next
  case False
  with assms(1) have f: "find P [s ..< e] = Some k" by simp
  note u = find_upt_first[OF f]
  have "k \<le> i"
  proof (rule ccontr)
    assume "\<not> k \<le> i"
    with u(4) assms(2) have "\<not> P i" by simp
    with assms(4) show False by simp
  qed
  with u(1) show ?thesis by simp
qed

lemma seekCascade_exact_earlier:
  assumes "pattern \<noteq> []" and "length pattern \<le> 2 ^ 53"
    and "s \<le> i" and "i < e" and "linesEqualUnder (\<lambda>s. s) lines pattern i"
  shows "\<exists>k c. seekCascade lines pattern [e] (e # [s ..< e]) = Some (k, c) \<and>
           (k = e \<or> (s \<le> k \<and> k \<le> i \<and> c = 1 \<and> meanSimilarity lines pattern k = 1))"
proof -
  let ?fuzzy = "e # [s ..< e]"
  let ?ms = "meanSimilarity lines pattern"
  have mem: "i \<in> set ?fuzzy" using assms(3,4) by simp
  from fuzzy_finds_exact[OF assms(1,2) mem assms(5)] obtain k
    where k: "find (isBest ?ms ?fuzzy) ?fuzzy = Some k" "?ms k = 1" by blast
  have "isBest ?ms ?fuzzy i"
    unfolding isBest_def list_all_iff
    using meanSimilarity_exact[OF assms(1,2,5)] meanSimilarity_le_1[of lines pattern] by simp
  from find_end_first[OF k(1) assms(3,4) this] have pos: "k = e \<or> (s \<le> k \<and> k \<le> i)" .
  have fz: "(case find (isBest ?ms ?fuzzy) ?fuzzy of
               None \<Rightarrow> None
             | Some k \<Rightarrow> if ?ms k \<ge> fl 0.92 then Some (k, ?ms k) else None) = Some (k, 1)"
    using k fl_threshold_bounds(3) by simp
  have st: "find Q [e] = None \<or> find Q [e] = Some e" for Q :: "nat \<Rightarrow> bool"
    by simp
  show ?thesis
    unfolding seekCascade_def fz
    using st[of "linesEqualUnder (\<lambda>s. s) lines pattern"] st[of "linesEqualUnder trimEnd lines pattern"]
      st[of "linesEqualUnder trim lines pattern"] st[of "linesEqualUnder normalizeUnicode lines pattern"]
      pos k(2)
    by (elim disjE) (simp_all only: option.case, blast+)
qed

subsection \<open>Evaluation on concrete inputs\<close>

text \<open>
  Rewrite rules that run the definitions on literals. The step of \<open>levRow\<close> is stated
  without \<open>let\<close>, so that every call is rewritten on numerals.
\<close>

lemma ascii_simps: "ascii [] = []" "ascii (c # cs) = of_char c # ascii cs"
  by (simp_all add: ascii_def)

lemmas string_eval = ascii_simps trim_def trimStart_def trimEnd_def isJsSpace_def

lemma levRow_step:
  "levRow aCode (bCode # bs) (diag # up # prev) left =
     min (min (up + 1) (left + 1)) (diag + (if aCode = bCode then 0 else 1))
     # levRow aCode bs (up # prev)
         (min (min (up + 1) (left + 1)) (diag + (if aCode = bCode then 0 else 1)))"
  by (simp add: Let_def)

lemmas seek_eval = seekSequence_def seekPass.simps fuzzyLoop.simps fuzzyScoreAt_def
  similarityScore_def levenshteinDistance_def normalizeLineForFuzzy_def normalizeFuzzyText_def
  replaceClass_def normalizeUnicode_def normalizeUnicodeChar_def isBlank_def FUZZY_THRESHOLD_def
  levRow_step Let_def fl_eval

text \<open>
  The order of the additions matters. The similarities \<open>2/3\<close>, \<open>6/7\<close> and \<open>1/3\<close> of the
  window at position 0 below are those of the window at position 3 in the reverse order,
  and the two means are different doubles: \<^verbatim>\<open>0.6190476190476191\<close> and
  \<^verbatim>\<open>0.6190476190476192\<close>.
\<close>

lemma fuzzyScoreAt_order:
  "fuzzyScoreAt [ascii ''abx'', ascii ''abcdefx'', ascii ''axx'',
                 ascii ''axx'', ascii ''abcdefx'', ascii ''abx'']
     [ascii ''abc'', ascii ''abcdefg'', ascii ''abc''] 0 = 5575885252934900 / 2 ^ 53"
  "fuzzyScoreAt [ascii ''abx'', ascii ''abcdefx'', ascii ''axx'',
                 ascii ''axx'', ascii ''abcdefx'', ascii ''abx'']
     [ascii ''abc'', ascii ''abcdefg'', ascii ''abc''] 3 = 5575885252934901 / 2 ^ 53"
  by (simp_all add: seek_eval string_eval del: levRow.simps(1))

section \<open>Properties of the hunk parser\<close>

lemma marker_simps:
  "EOF_MARKER = [0x2A, 0x2A, 0x2A, 0x20, 0x45, 0x6E, 0x64, 0x20, 0x6F, 0x66, 0x20, 0x46, 0x69, 0x6C, 0x65]"
  "CHANGE_CONTEXT_MARKER = [0x40, 0x40, 0x20]"
  "EMPTY_CHANGE_CONTEXT_MARKER = [0x40, 0x40]"
  by (simp_all add: EOF_MARKER_def CHANGE_CONTEXT_MARKER_def EMPTY_CHANGE_CONTEXT_MARKER_def
      ascii_def)

lemma isHunkHeader_shape:
  assumes "isHunkHeader h"
  shows "\<exists>t. h = 0x40 # t" and "h \<noteq> EOF_MARKER"
proof -
  show "\<exists>t. h = 0x40 # t"
    using assms by (cases h) (auto simp: isHunkHeader_def startsWith_def marker_simps)
  then show "h \<noteq> EOF_MARKER"
    by (auto simp: marker_simps)
qed

lemma trim_nonempty:
  assumes "\<not> isJsSpace c"
  shows "trim (c # t) \<noteq> []"
proof -
  have "c \<in> set (rev (c # t))" by simp
  then have "dropWhile isJsSpace (rev (c # t)) \<noteq> []"
    using assms by (auto simp: dropWhile_eq_Nil_conv)
  then show ?thesis
    using assms by (simp add: trim_def trimStart_def trimEnd_def)
qed

lemma isHunkHeader_not_blank: "isHunkHeader h \<Longrightarrow> trim h \<noteq> []"
  using isHunkHeader_shape(1)[of h] trim_nonempty[of "0x40"]
  by (auto simp: isJsSpace_def)

text \<open>A chunk has a line in it as soon as a line has been parsed.\<close>

lemma parseChunkLines_nonempty:
  "parseChunkLines ls n c k = Inr (c', k') \<Longrightarrow>
   (0 < k \<longrightarrow> oldLines c \<noteq> [] \<or> newLines c \<noteq> []) \<Longrightarrow>
   0 < k' \<Longrightarrow> oldLines c' \<noteq> [] \<or> newLines c' \<noteq> []"
proof (induction ls arbitrary: c k)
  case Nil
  then show ?case by simp
next
  case (Cons l ls)
  show ?case
  proof (cases "l = EOF_MARKER")
    case True
    with Cons.prems show ?thesis by (auto split: if_splits)
  next
    case False
    show ?thesis
    proof (cases l)
      case Nil
      with False Cons.prems(1) have
        "parseChunkLines ls n (c\<lparr>hasContextLines := True, oldLines := oldLines c @ [[]],
            newLines := newLines c @ [[]]\<rparr>) (k + 1) = Inr (c', k')"
        by simp
      from Cons.IH[OF this] Cons.prems(3) show ?thesis by simp
    next
      case (Cons ch sl)
      with False Cons.prems show ?thesis
        by (auto split: if_splits dest!: Cons.IH)
    qed
  qed
qed

lemma parseChunkLines_error:
  "parseChunkLines ls n c k = Inl e \<Longrightarrow> \<exists>msg. e = ParseError msg (Some (n + 1))"
proof (induction ls arbitrary: c k)
  case Nil
  then show ?case by simp
next
  case (Cons l ls)
  then show ?case
    by (cases l) (auto split: if_splits)
qed

lemma parseChunkLines_count:
  "parseChunkLines ls n c k = Inr (c', k') \<Longrightarrow> k' \<le> k + length ls"
proof (induction ls arbitrary: c k)
  case Nil
  then show ?case by simp
next
  case (Cons l ls)
  then show ?case
    by (cases l) (fastforce split: if_splits)+
qed

lemma parseOneChunk_nonempty:
  assumes "parseOneChunk ls n allow = Inr (c, used)"
  shows "oldLines c \<noteq> [] \<or> newLines c \<noteq> []"
  using assms
  by (auto simp: parseOneChunk_def split: list.splits sum.splits prod.splits if_splits
      dest!: parseChunkLines_nonempty)

lemma parseOneChunk_error:
  assumes "parseOneChunk ls n allow = Inl e"
  shows "\<exists>msg m. e = ParseError msg (Some m)"
  using assms
  by (auto simp: parseOneChunk_def split: list.splits sum.splits prod.splits if_splits
      dest!: parseChunkLines_error)

lemma parseLoop_nonempty:
  "parseLoop ls i acc = Inr cs \<Longrightarrow>
   \<forall>c \<in> set acc. oldLines c \<noteq> [] \<or> newLines c \<noteq> [] \<Longrightarrow>
   \<forall>c \<in> set cs. oldLines c \<noteq> [] \<or> newLines c \<noteq> []"
proof (induction ls i acc rule: parseLoop.induct)
  case (1 ls i acc)
  show ?case
  proof (cases "i < length ls")
    case False
    with "1.prems" show ?thesis by (simp add: parseLoop.simps[of ls i acc])
  next
    case lt: True
    show ?thesis
    proof (cases "trim (ls ! i) = []")
      case True
      with lt "1.prems"(1) have "parseLoop ls (i + 1) acc = Inr cs"
        by (simp add: parseLoop.simps[of ls i acc])
      from "1.IH"(1)[OF lt True this "1.prems"(2)] show ?thesis .
    next
      case False
      with lt "1.prems"(1) obtain c used where
        p: "parseOneChunk (drop i ls) (i + 1) (length acc = 0) = Inr (c, used)"
        and r: "parseLoop ls (i + used) (acc @ [c]) = Inr cs"
        by (auto simp: parseLoop.simps[of ls i acc] split: sum.splits)
      have "\<forall>c \<in> set (acc @ [c]). oldLines c \<noteq> [] \<or> newLines c \<noteq> []"
        using "1.prems"(2) parseOneChunk_nonempty[OF p] by auto
      from "1.IH"(2)[OF lt False p refl r this] show ?thesis .
    qed
  qed
qed

lemma parseLoop_error:
  "parseLoop ls i acc = Inl e \<Longrightarrow> \<exists>msg m. e = ParseError msg (Some m)"
proof (induction ls i acc rule: parseLoop.induct)
  case (1 ls i acc)
  show ?case
  proof (cases "i < length ls")
    case False
    with "1.prems" show ?thesis by (simp add: parseLoop.simps[of ls i acc])
  next
    case lt: True
    show ?thesis
    proof (cases "trim (ls ! i) = []")
      case True
      with lt "1.prems"(1) have "parseLoop ls (i + 1) acc = Inl e"
        by (simp add: parseLoop.simps[of ls i acc])
      from "1.IH"(1)[OF lt True this] show ?thesis .
    next
      case False
      show ?thesis
      proof (cases "parseOneChunk (drop i ls) (i + 1) (length acc = 0)")
        case (Inl e')
        with lt False "1.prems" have "e' = e"
          by (simp add: parseLoop.simps[of ls i acc])
        with parseOneChunk_error[OF Inl] show ?thesis by simp
      next
        case (Inr cu)
        obtain c used where cu: "cu = (c, used)" by (cases cu)
        with Inr lt False "1.prems" have "parseLoop ls (i + used) (acc @ [c]) = Inl e"
          by (simp add: parseLoop.simps[of ls i acc])
        from "1.IH"(2)[OF lt False Inr[unfolded cu] refl this] show ?thesis .
      qed
    qed
  qed
qed

text \<open>A chunk that parses is parsed the same way when a hunk header and more follow it.\<close>

lemma parseChunkLines_append:
  assumes h: "isHunkHeader h"
  shows "parseChunkLines ls n c k = Inr (c', k') \<Longrightarrow> 0 < k' \<Longrightarrow>
         parseChunkLines (ls @ h # rest) n c k = Inr (c', k')"
proof (induction ls arbitrary: c k)
  case Nil
  from isHunkHeader_shape[OF h] obtain t where "h = 0x40 # t" "h \<noteq> EOF_MARKER" by blast
  with Nil show ?case by simp
next
  case (Cons l ls)
  show ?case
  proof (cases "l = EOF_MARKER")
    case True
    with Cons.prems show ?thesis by (auto split: if_splits)
  next
    case False
    show ?thesis
    proof (cases l)
      case Nil
      with False Cons.prems Cons.IH show ?thesis by simp
    next
      case (Cons ch sl)
      with False Cons.prems Cons.IH show ?thesis
        by (auto split: if_splits)
    qed
  qed
qed

lemma parseOneChunk_header:
  assumes "isHunkHeader l"
  shows "parseOneChunk (l # ls) n allow =
     (if ls = [] then Inl (ParseError HunkNoLines (Some (n + 1)))
      else (case parseChunkLines ls n
                   \<lparr>changeContext = (if l = EMPTY_CHANGE_CONTEXT_MARKER then None
                                      else Some (drop (length CHANGE_CONTEXT_MARKER) l)),
                    hasContextLines = False, oldLines = [], newLines = [],
                    isEndOfFile = False\<rparr> 0 of
              Inl e \<Rightarrow> Inl e
            | Inr (c, k) \<Rightarrow>
                if k = 0 then Inl (ParseError HunkNoLines (Some (n + 1))) else Inr (c, k + 1)))"
  using assms
  by (cases ls) (auto simp: parseOneChunk_def isHunkHeader_def simp del: parseChunkLines.simps
      split: sum.splits prod.splits)

lemma parseOneChunk_bare:
  assumes "\<not> isHunkHeader l"
  shows "parseOneChunk (l # ls) n allow =
     (if \<not> allow then Inl (ParseError (ExpectedContextMarker l) (Some n))
      else (case parseChunkLines (l # ls) n
                   \<lparr>changeContext = None, hasContextLines = False, oldLines = [],
                    newLines = [], isEndOfFile = False\<rparr> 0 of
              Inl e \<Rightarrow> Inl e
            | Inr (c, k) \<Rightarrow>
                if k = 0 then Inl (ParseError HunkNoLines (Some n)) else Inr (c, k)))"
  using assms
  by (auto simp: parseOneChunk_def isHunkHeader_def simp del: parseChunkLines.simps
      split: sum.splits prod.splits)

lemma parseOneChunk_append:
  assumes h: "isHunkHeader h" and p: "parseOneChunk ls n allow = Inr (c, used)"
  shows "parseOneChunk (ls @ h # rest) n allow = Inr (c, used)" and "used \<le> length ls"
proof -
  from p obtain l ls' where ls: "ls = l # ls'"
    by (cases ls) (auto simp: parseOneChunk_def)
  have "parseOneChunk (ls @ h # rest) n allow = Inr (c, used) \<and> used \<le> length ls"
  proof (cases "isHunkHeader l")
    case True
    let ?c0 = "\<lparr>changeContext = (if l = EMPTY_CHANGE_CONTEXT_MARKER then None
                                    else Some (drop (length CHANGE_CONTEXT_MARKER) l)),
                  hasContextLines = False, oldLines = [], newLines = [], isEndOfFile = False\<rparr>"
    from p ls obtain k where k: "parseChunkLines ls' n ?c0 0 = Inr (c, k)" "0 < k" "used = k + 1"
      and ne: "ls' \<noteq> []"
      unfolding ls parseOneChunk_header[OF True]
      by (auto split: sum.splits prod.splits if_splits simp del: parseChunkLines.simps)
    from parseChunkLines_append[OF h k(1,2), of rest] k(2,3)
    have "parseOneChunk (ls @ h # rest) n allow = Inr (c, used)"
      unfolding ls append_Cons parseOneChunk_header[OF True]
      by (simp del: parseChunkLines.simps)
    moreover from parseChunkLines_count[OF k(1)] k(3) ls have "used \<le> length ls" by simp
    ultimately show ?thesis by simp
  next
    case False
    let ?c0 = "\<lparr>changeContext = None, hasContextLines = False, oldLines = [],
                  newLines = [], isEndOfFile = False\<rparr>"
    from p ls obtain k where k: "parseChunkLines (l # ls') n ?c0 0 = Inr (c, k)" "0 < k" "used = k"
      and al: allow
      unfolding ls parseOneChunk_bare[OF False]
      by (auto split: sum.splits prod.splits if_splits simp del: parseChunkLines.simps)
    from parseChunkLines_append[OF h k(1,2), of rest] k(2,3) al
    have "parseOneChunk (ls @ h # rest) n allow = Inr (c, used)"
      unfolding ls append_Cons parseOneChunk_bare[OF False]
      by (simp del: parseChunkLines.simps)
    moreover from parseChunkLines_count[OF k(1)] k(3) ls have "used \<le> length ls" by simp
    ultimately show ?thesis by simp
  qed
  then show "parseOneChunk (ls @ h # rest) n allow = Inr (c, used)" "used \<le> length ls"
    by simp_all
qed

lemma parseLoop_append:
  assumes h: "isHunkHeader h"
  shows "parseLoop pre i acc = Inr cs \<Longrightarrow> i \<le> length pre \<Longrightarrow>
         parseLoop (pre @ h # rest) i acc = parseLoop (pre @ h # rest) (length pre) cs"
proof (induction pre i acc rule: parseLoop.induct)
  case (1 pre i acc)
  show ?case
  proof (cases "i < length pre")
    case False
    with "1.prems" have "i = length pre" "cs = acc"
      by (simp_all add: parseLoop.simps[of pre i acc])
    then show ?thesis by simp
  next
    case lt: True
    then have nth: "(pre @ h # rest) ! i = pre ! i" and lt': "i < length (pre @ h # rest)"
      and dr: "drop i (pre @ h # rest) = drop i pre @ h # rest"
      by (simp_all add: nth_append)
    show ?thesis
    proof (cases "trim (pre ! i) = []")
      case True
      with lt "1.prems"(1) have "parseLoop pre (i + 1) acc = Inr cs"
        by (simp add: parseLoop.simps[of pre i acc])
      from "1.IH"(1)[OF lt True this] lt
      have "parseLoop (pre @ h # rest) (i + 1) acc = parseLoop (pre @ h # rest) (length pre) cs"
        by simp
      with True nth lt' show ?thesis
        by (simp add: parseLoop.simps[of "pre @ h # rest" i acc])
    next
      case False
      with lt "1.prems"(1) obtain c used where
        p: "parseOneChunk (drop i pre) (i + 1) (length acc = 0) = Inr (c, used)"
        and r: "parseLoop pre (i + used) (acc @ [c]) = Inr cs"
        by (auto simp: parseLoop.simps[of pre i acc] split: sum.splits)
      note ap = parseOneChunk_append(1)[OF h p, of rest] parseOneChunk_append(2)[OF h p]
      from ap(2) lt have "i + used \<le> length pre" by simp
      from "1.IH"(2)[OF lt False p refl r this]
      have "parseLoop (pre @ h # rest) (i + used) (acc @ [c])
              = parseLoop (pre @ h # rest) (length pre) cs" .
      with False nth lt' dr ap(1) show ?thesis
        by (simp add: parseLoop.simps[of "pre @ h # rest" i acc])
    qed
  qed
qed

text \<open>A hunk header that no content line follows makes the chunk fail, on the line after the header.\<close>

lemma parseOneChunk_header_only:
  assumes h: "isHunkHeader h" and r: "rest = [] \<or> \<not> isContentLine (hd rest)"
  shows "\<exists>msg. parseOneChunk (h # rest) n allow = Inl (ParseError msg (Some (n + 1)))"
proof (cases rest)
  case Nil
  then show ?thesis by (simp add: parseOneChunk_header[OF h])
next
  case (Cons l ls)
  with r have nc: "\<not> isContentLine l" by simp
  have "\<exists>msg. parseChunkLines (l # ls) n c 0 = Inl (ParseError msg (Some (n + 1)))" for c
  proof (cases "l = EOF_MARKER")
    case True
    then show ?thesis by simp
  next
    case False
    with nc obtain ch sl where "l = ch # sl" "ch \<noteq> 0x20" "ch \<noteq> 0x2B" "ch \<noteq> 0x2D"
      by (cases l) (auto simp: isContentLine_def)
    with False show ?thesis by simp
  qed
  then obtain msg where
    "parseChunkLines (l # ls) n
       \<lparr>changeContext = (if h = EMPTY_CHANGE_CONTEXT_MARKER then None
                          else Some (drop (length CHANGE_CONTEXT_MARKER) h)),
        hasContextLines = False, oldLines = [], newLines = [], isEndOfFile = False\<rparr> 0
     = Inl (ParseError msg (Some (n + 1)))"
    by blast
  then show ?thesis
    unfolding Cons parseOneChunk_header[OF h] by (simp del: parseChunkLines.simps)
qed

lemma parseLoop_header_only:
  assumes h: "isHunkHeader h" and r: "rest = [] \<or> \<not> isContentLine (hd rest)"
  shows "\<exists>msg. parseLoop (pre @ h # rest) (length pre) cs
                 = Inl (ParseError msg (Some (length pre + 2)))"
proof -
  from parseOneChunk_header_only[OF h r, of "length pre + 1" "length cs = 0"]
  obtain msg where
    "parseOneChunk (h # rest) (length pre + 1) (length cs = 0)
       = Inl (ParseError msg (Some (length pre + 2)))"
    by auto
  with isHunkHeader_not_blank[OF h] show ?thesis
    by (simp add: parseLoop.simps[of "pre @ h # rest" "length pre" cs])
qed

section \<open>Properties of the applicator\<close>

lemma resolveChunk_plain:
  "changeContext chunk = None \<Longrightarrow>
   resolveChunk originalLines lineIndex chunk = resolveLines originalLines lineIndex chunk"
  by (simp add: resolveChunk_def locateContext_def)

lemma resolveLines_addition:
  "oldLines chunk = [] \<Longrightarrow>
   resolveLines originalLines lineIndex chunk =
     Inr (\<lparr>startIndex = insertionIndex originalLines, oldLen = 0, replLines = newLines chunk\<rparr>,
          lineIndex)"
  by (auto simp: resolveLines_def insertionIndex_def last_conv_nth)

text \<open>
  The positions counted by \<open>occurrencePositions\<close> are those at which the target occurs
  verbatim: the body is some text of that length, the target, and some text.
\<close>

lemma occurrencePositions_iff:
  "i \<in> set (occurrencePositions body target) \<longleftrightarrow>
     (\<exists>pre post. body = pre @ target @ post \<and> length pre = i)"
proof
  assume "i \<in> set (occurrencePositions body target)"
  then have i: "i \<le> length body - length target"
    and t: "take (length target) (drop i body) = target"
    by (auto simp: occurrencePositions_def simp del: upt_Suc)
  have "body = take i body @ drop i body" by simp
  also have "drop i body = take (length target) (drop i body)
                                @ drop (length target) (drop i body)"
    by (rule append_take_drop_id[symmetric])
  finally have "body = take i body @ target @ drop (length target) (drop i body)"
    unfolding t .
  moreover have "length (take i body) = i" using i by simp
  ultimately show "\<exists>pre post. body = pre @ target @ post \<and> length pre = i" by blast
next
  assume "\<exists>pre post. body = pre @ target @ post \<and> length pre = i"
  then obtain pre post where c: "body = pre @ target @ post" and l: "length pre = i" by blast
  then show "i \<in> set (occurrencePositions body target)"
    by (simp add: occurrencePositions_def del: upt_Suc)
qed

lemma occurrencePositions_distinct: "distinct (occurrencePositions body target)"
  by (simp add: occurrencePositions_def)

lemma occurrencePositions_two:
  assumes "body = p1 @ target @ q1" and "body = p2 @ target @ q2"
    and "length p1 \<noteq> length p2"
  shows "1 < length (occurrencePositions body target)"
proof -
  let ?ps = "occurrencePositions body target"
  have "length p1 \<in> set ?ps" "length p2 \<in> set ?ps"
    using assms(1,2) unfolding occurrencePositions_iff by blast+
  then have "{length p1, length p2} \<subseteq> set ?ps" by simp
  then have "card {length p1, length p2} \<le> card (set ?ps)"
    by (intro card_mono) simp_all
  also have "\<dots> = length ?ps"
    using occurrencePositions_distinct by (rule distinct_card)
  finally show ?thesis using assms(3) by simp
qed

lemma applySimpleReplace_multiple:
  assumes "1 < length (occurrencePositions (normalizeToLF d originalContent)
                         (normalizeToLF d (joinLines (oldLines chunk))))"
  shows "applySimpleReplace d originalContent chunk =
           Inl (ApplyPatchError (MultipleOccurrences
                  (length (occurrencePositions (normalizeToLF d originalContent)
                             (normalizeToLF d (joinLines (oldLines chunk)))))))"
proof -
  let ?n = "length (occurrencePositions (normalizeToLF d originalContent)
                      (normalizeToLF d (joinLines (oldLines chunk))))"
  have fm: "findEditMatch d (normalizeToLF d originalContent)
              (normalizeToLF d (joinLines (oldLines chunk)))
            = \<lparr>match = None, closest = None, occurrences = Some ?n\<rparr>"
    using assms by (simp only: findEditMatch_def if_True)
  from assms have c: "?n \<noteq> 0 \<and> ?n > 1" by linarith
  show ?thesis
    unfolding applySimpleReplace_def Let_def fm
    by (simp only: MatchOutcome.select_convs option.case c if_True simp_thms)
qed

section \<open>Properties of the hashline engine\<close>

subsection \<open>Compaction of line numbers\<close>

lemma compactSweep_props:
  assumes "s \<le> e" and "sorted_wrt (<) (e # xs)"
  shows "(\<Union>r \<in> set (compactSweep s e xs). {rangeStart r .. rangeEnd r}) = {s .. e} \<union> set xs"
    and "\<forall>r \<in> set (compactSweep s e xs). s \<le> rangeStart r \<and> rangeStart r \<le> rangeEnd r"
    and "sorted_wrt (\<lambda>a b. rangeEnd a + 1 < rangeStart b) (compactSweep s e xs)"
  using assms
proof (induction xs arbitrary: s e)
  case Nil
  {
    case 1 then show ?case by simp
  next
    case 2 then show ?case by simp
  next
    case 3 then show ?case by simp
  }
next
  case (Cons x xs)
  {
    case 1
    show ?case
    proof (cases "x = e + 1")
      case True
      with 1 have "s \<le> x" "sorted_wrt (<) (x # xs)" by auto
      from Cons.IH(1)[OF this] True 1(1) show ?thesis
        by (auto simp: atLeastAtMostSuc_conv)
    next
      case False
      from 1 have "x \<le> x" "sorted_wrt (<) (x # xs)" by auto
      from Cons.IH(1)[OF this] False show ?thesis by simp
    qed
  next
    case 2
    show ?case
    proof (cases "x = e + 1")
      case True
      with 2 have "s \<le> x" "sorted_wrt (<) (x # xs)" by auto
      from Cons.IH(2)[OF this] True show ?thesis by simp
    next
      case False
      from 2 have x: "x \<le> x" "sorted_wrt (<) (x # xs)" and "s \<le> x" by auto
      with Cons.IH(2)[OF x] False 2(1) show ?thesis by auto
    qed
  next
    case 3
    show ?case
    proof (cases "x = e + 1")
      case True
      with 3 have "s \<le> x" "sorted_wrt (<) (x # xs)" by auto
      from Cons.IH(3)[OF this] True show ?thesis by simp
    next
      case False
      from 3 have x: "x \<le> x" "sorted_wrt (<) (x # xs)" and "e < x" by auto
      with False have "e + 1 < x" by simp
      with Cons.IH(2)[OF x] Cons.IH(3)[OF x] False show ?thesis by auto
    qed
  }
qed

lemma compactLineRanges_props:
  "(\<Union>r \<in> set (compactLineRanges ls). {rangeStart r .. rangeEnd r}) = set ls"
  "\<forall>r \<in> set (compactLineRanges ls). rangeStart r \<le> rangeEnd r"
  "sorted_wrt (\<lambda>a b. rangeEnd a + 1 < rangeStart b) (compactLineRanges ls)"
proof -
  have st: "sorted_wrt (<) (sort (remdups ls))"
    by (simp add: strict_sorted_iff)
  have se: "set (sort (remdups ls)) = set ls" by simp
  show "(\<Union>r \<in> set (compactLineRanges ls). {rangeStart r .. rangeEnd r}) = set ls"
  proof (cases "sort (remdups ls)")
    case Nil
    with se show ?thesis by (simp add: compactLineRanges_def)
  next
    case (Cons x xs)
    with st compactSweep_props(1)[of x x xs] se show ?thesis
      by (simp add: compactLineRanges_def)
  qed
  show "\<forall>r \<in> set (compactLineRanges ls). rangeStart r \<le> rangeEnd r"
  proof (cases "sort (remdups ls)")
    case Nil
    then show ?thesis by (simp add: compactLineRanges_def)
  next
    case (Cons x xs)
    with st compactSweep_props(2)[of x x xs] show ?thesis
      by (simp add: compactLineRanges_def)
  qed
  show "sorted_wrt (\<lambda>a b. rangeEnd a + 1 < rangeStart b) (compactLineRanges ls)"
  proof (cases "sort (remdups ls)")
    case Nil
    then show ?thesis by (simp add: compactLineRanges_def)
  next
    case (Cons x xs)
    with st compactSweep_props(3)[of x x xs] show ?thesis
      by (simp add: compactLineRanges_def)
  qed
qed

subsection \<open>Validation of a batch\<close>



section \<open>More evaluation rules\<close>

lemmas parse_eval = parseDiffHunks_def parseLoop.simps parseOneChunk_def marker_simps
  startsWith_def NL_def isHunkHeader_def isContentLine_def

lemmas apply_eval = applyUpdate_def applyDiffToContent_def applySimpleReplace_def
  computeReplacements_def resolveChunk_def locateContext_def resolveLines_def
  applyReplacements_def splice_def endsWithNL_def insertionIndex_def
  findEditMatch_def occurrencePositions_def plainDiff_def

lemmas hashline_eval = applyHashlineEdits_def HashlineMismatchError_def compactLineRanges_def
  inRange_def hashMatches_def toMismatch_def plainHash_def NL_def

section \<open>The claims\<close>


subsection \<open>C2: the cascade of strategies\<close>

text \<open>
  C2. For every haystack, every non-empty pattern no longer than the haystack and every
  start index, \<open>seekSequence\<close> returns the result of the first strategy that succeeds, in
  the fixed order: exact equality per line (1.00), equality ignoring trailing whitespace
  (0.99), equality ignoring leading and trailing whitespace (0.98), equality after
  normalising Unicode punctuation to ASCII (0.97), and last the fuzzy pass, which scores
  every candidate position by the mean per-line similarity, one minus the Levenshtein
  distance over the longer length after normalisation, and accepts the best position only
  if its score is at least 0.92; if no strategy qualifies no index is returned. The loops
  of the source compute what the cascade of the specification describes, with or without
  the end-of-file flag, the scores being computed and compared as doubles on both sides.
  The Unicode normalisation trims the line and maps the dashes, the curly quotes and the
  exotic spaces to \<^verbatim>\<open>-\<close>, \<^verbatim>\<open>'\<close>, \<^verbatim>\<open>"\<close> and the space, leaving ASCII as it is; the
  normalisation of the fuzzy pass trims, maps quotes and dashes and collapses runs of
  blanks.
\<close>

theorem seekSequence_cascade:
  assumes "pattern \<noteq> []" and "length pattern \<le> length lines"
  shows "found (seekSequence lines pattern start eof) =
           seekCascade lines pattern (strictCandidates lines pattern start eof)
             (fuzzyCandidates lines pattern start eof)
         \<and> normalizeUnicode s = map normalizeUnicodeChar (trim s)
         \<and> map normalizeUnicodeChar [0x2010, 0x2011, 0x2012, 0x2013, 0x2014, 0x2015, 0x2212]
             = [0x2D, 0x2D, 0x2D, 0x2D, 0x2D, 0x2D, 0x2D]
         \<and> map normalizeUnicodeChar [0x2018, 0x2019, 0x201A, 0x201B] = [0x27, 0x27, 0x27, 0x27]
         \<and> map normalizeUnicodeChar [0x201C, 0x201D, 0x201E, 0x201F] = [0x22, 0x22, 0x22, 0x22]
         \<and> map normalizeUnicodeChar
               [0xA0, 0x2002, 0x2003, 0x2004, 0x2005, 0x2006, 0x2007, 0x2008, 0x2009, 0x200A,
                0x202F, 0x205F, 0x3000]
             = [0x20, 0x20, 0x20, 0x20, 0x20, 0x20, 0x20, 0x20, 0x20, 0x20, 0x20, 0x20, 0x20]
         \<and> (c < 0x80 \<longrightarrow> normalizeUnicodeChar c = c)
         \<and> normalizeLineForFuzzy [0x20, 0x201E, 0x61, 0x20, 0x9, 0x20, 0x62, 0x2014, 0x60, 0x20]
             = [0x22, 0x61, 0x20, 0x62, 0x2D, 0x27]"
proof (intro conjI)
  show "found (seekSequence lines pattern start eof) =
           seekCascade lines pattern (strictCandidates lines pattern start eof)
             (fuzzyCandidates lines pattern start eof)"
    using assms by (rule seek_cascade_general)
  show "normalizeUnicode s = map normalizeUnicodeChar (trim s)"
    by (rule normalizeUnicode_def)
  show "c < 0x80 \<longrightarrow> normalizeUnicodeChar c = c"
    by (simp add: normalizeUnicodeChar_def)
  show "normalizeLineForFuzzy [0x20, 0x201E, 0x61, 0x20, 0x9, 0x20, 0x62, 0x2014, 0x60, 0x20]
          = [0x22, 0x61, 0x20, 0x62, 0x2D, 0x27]"
    by (simp add: normalizeLineForFuzzy_def normalizeFuzzyText_def replaceClass_def isBlank_def
        trim_def trimStart_def trimEnd_def isJsSpace_def)
qed (simp_all add: normalizeUnicodeChar_def)

text \<open>
  Two runs. In the first the pattern is found by the third strategy. In the second four
  of five lines are equal and the fifth has similarity 0.6: the mean is 0.92 in exact
  arithmetic, but its double lies below the double 0.92, so no index is returned.
\<close>

theorem seekSequence_cascade_witness:
  "[ascii ''bar''] \<noteq> [] \<and>
   length [ascii ''bar''] \<le> length [ascii ''foo'', ascii ''  bar'', ascii ''baz''] \<and>
   seekCascade [ascii ''foo'', ascii ''  bar'', ascii ''baz''] [ascii ''bar'']
     (strictCandidates [ascii ''foo'', ascii ''  bar'', ascii ''baz''] [ascii ''bar''] 0 False)
     (fuzzyCandidates [ascii ''foo'', ascii ''  bar'', ascii ''baz''] [ascii ''bar''] 0 False)
     = Some (1, fl 0.98) \<and>
   fuzzyScoreAt [ascii ''a'', ascii ''a'', ascii ''a'', ascii ''a'', ascii ''abcde'']
     [ascii ''a'', ascii ''a'', ascii ''a'', ascii ''a'', ascii ''abcxy''] 0
     = 8286623314361712 / 2 ^ 53 \<and>
   fl 0.92 = 8286623314361713 / 2 ^ 53 \<and>
   seekCascade [ascii ''a'', ascii ''a'', ascii ''a'', ascii ''a'', ascii ''abcde'']
     [ascii ''a'', ascii ''a'', ascii ''a'', ascii ''a'', ascii ''abcxy'']
     (strictCandidates [ascii ''a'', ascii ''a'', ascii ''a'', ascii ''a'', ascii ''abcde'']
        [ascii ''a'', ascii ''a'', ascii ''a'', ascii ''a'', ascii ''abcxy''] 0 False)
     (fuzzyCandidates [ascii ''a'', ascii ''a'', ascii ''a'', ascii ''a'', ascii ''abcde'']
        [ascii ''a'', ascii ''a'', ascii ''a'', ascii ''a'', ascii ''abcxy''] 0 False)
     = None"
proof -
  let ?L = "[ascii ''foo'', ascii ''  bar'', ascii ''baz'']"
  let ?L5 = "[ascii ''a'', ascii ''a'', ascii ''a'', ascii ''a'', ascii ''abcde'']"
  let ?P5 = "[ascii ''a'', ascii ''a'', ascii ''a'', ascii ''a'', ascii ''abcxy'']"
  have h1: "[ascii ''bar''] \<noteq> []" by simp
  have h2: "length [ascii ''bar''] \<le> length ?L" by simp
  have g1: "?P5 \<noteq> []" by simp
  have g2: "length ?P5 \<le> length ?L5" by simp
  have r: "seekSequence ?L [ascii ''bar''] 0 False = \<lparr>index = Some 1, confidence = fl 0.98\<rparr>"
    by (simp add: seekSequence_def seekPass.simps string_eval)
  have sc: "fuzzyScoreAt ?L5 ?P5 0 = 8286623314361712 / 2 ^ 53"
    by (simp add: seek_eval string_eval del: levRow.simps(1))
  have r5: "index (seekSequence ?L5 ?P5 0 False) = None"
    by (simp add: seek_eval string_eval del: levRow.simps(1))
  from seekSequence_cascade[OF h1 h2, of 0 False, THEN conjunct1] r
  have a: "seekCascade ?L [ascii ''bar''] (strictCandidates ?L [ascii ''bar''] 0 False)
             (fuzzyCandidates ?L [ascii ''bar''] 0 False) = Some (1, fl 0.98)"
    by (simp add: found_def)
  from seekSequence_cascade[OF g1 g2, of 0 False, THEN conjunct1] r5
  have b: "seekCascade ?L5 ?P5 (strictCandidates ?L5 ?P5 0 False)
             (fuzzyCandidates ?L5 ?P5 0 False) = None"
    by (simp add: found_def)
  from h1 h2 a sc fl_threshold b show ?thesis by blast
qed

subsection \<open>C9: the range of the confidence\<close>

text \<open>
  C9. For every haystack, pattern, start index and end-of-file flag, the confidence
  returned by \<open>seekSequence\<close> lies in the closed interval from 0 to 1; whenever an index
  is returned the confidence is at least the acceptance threshold 0.92; when no index is
  returned the confidence is the best fuzzy score found (0 when no position was scored),
  which is below 0.92.
\<close>

theorem seekSequence_confidence:
  fixes lines pattern :: "jstring list"
  defines "cands \<equiv> (\<lambda>start eof. if length pattern > length lines then []
                                   else fuzzyCandidates lines pattern start eof)"
  shows "0 \<le> confidence (seekSequence lines pattern start eof) \<and>
         confidence (seekSequence lines pattern start eof) \<le> 1 \<and>
         (case index (seekSequence lines pattern start eof) of
            Some i \<Rightarrow> confidence (seekSequence lines pattern start eof) \<ge> 0.92
          | None \<Rightarrow>
              confidence (seekSequence lines pattern start eof) < 0.92 \<and>
              confidence (seekSequence lines pattern start eof)
                = Max (insert 0 (fuzzyScoreAt lines pattern ` set (cands start eof))))"
proof (cases "pattern = []")
  case True
  then show ?thesis by (simp add: seekSequence_def)
next
  case ne: False
  show ?thesis
  proof (cases "length pattern > length lines")
    case True
    with ne show ?thesis by (simp add: seekSequence_def cands_def)
  next
    case False
    then have le: "length pattern \<le> length lines" by simp
    let ?best = "fold (fuzzyStep (meanSimilarity lines pattern))
                   (fuzzyCandidates lines pattern start eof) (None, 0)"
    have sc: "\<forall>i. meanSimilarity lines pattern i \<le> 1"
      using fuzzyScoreAt_le_1 by (simp add: fuzzyScoreAt_meanSimilarity [symmetric])
    note b = fold_fuzzyStep_bounds[OF sc, of "fuzzyCandidates lines pattern start eof"]
    note t = fl_threshold_bounds fl_confidences
    have strict: ?thesis
      if "seekSequence lines pattern start eof = \<lparr>index = Some i, confidence = c\<rparr>"
        and "c = 1 \<or> c = fl 0.99 \<or> c = fl 0.98 \<or> c = fl 0.97" for i c
    proof -
      from that(2) t have "0 \<le> c \<and> c \<le> 1 \<and> 0.92 \<le> c" by auto
      with that(1) show ?thesis by simp
    qed
    from seekSequence_cases[OF ne le, of start eof]
    show ?thesis
    proof (elim disjE exE)
      assume r: "seekSequence lines pattern start eof =
                   (if fst ?best \<noteq> None \<and> snd ?best \<ge> fl 0.92
                    then \<lparr>index = fst ?best, confidence = snd ?best\<rparr>
                    else \<lparr>index = None, confidence = snd ?best\<rparr>)"
      show ?thesis
      proof (cases "fst ?best \<noteq> None \<and> snd ?best \<ge> fl 0.92")
        case True
        with t(2) have "0.92 \<le> snd ?best" by simp
        with True r b show ?thesis by auto
      next
        case nq: False
        have lt: "snd ?best < 0.92"
        proof (cases "fst ?best = None")
          case True
          from fold_fuzzyStep_None[OF True] show ?thesis by simp
        next
          case False
          with nq have below: "snd ?best < fl 0.92" by simp
          from fold_fuzzyStep_range[of "meanSimilarity lines pattern"
              "fuzzyCandidates lines pattern start eof"]
          show ?thesis
          proof (elim disjE bexE)
            assume "snd ?best = 0"
            then show ?thesis by simp
          next
            fix k assume "snd ?best = meanSimilarity lines pattern k"
            then have "snd ?best = fl (fuzzyTotal lines pattern k 0 / of_nat (length pattern))"
              by (simp add: fuzzyScoreAt_meanSimilarity [symmetric] fuzzyScoreAt_def)
            with below below_threshold show ?thesis by simp
          qed
        qed
        have mx: "snd ?best = Max (insert 0 (fuzzyScoreAt lines pattern `
                 set (fuzzyCandidates lines pattern start eof)))"
          by (simp add: fold_fuzzyStep_snd fuzzyScoreAt_eq)
        from r have rr: "seekSequence lines pattern start eof
                           = \<lparr>index = None, confidence = snd ?best\<rparr>"
          by (simp only: if_not_P[OF nq])
        have c: "confidence (seekSequence lines pattern start eof) = snd ?best"
          "index (seekSequence lines pattern start eof) = None"
          by (simp_all add: rr)
        have cd: "cands start eof = fuzzyCandidates lines pattern start eof"
          using False by (simp add: cands_def)
        show ?thesis
          unfolding c cd option.case by (intro conjI b lt mx)
      qed
    qed (rule strict, assumption, simp)+
  qed
qed

theorem seekSequence_confidence_witness:
  "index (seekSequence [ascii ''abc''] [ascii ''abd''] 0 False) = None \<and>
   0 \<le> confidence (seekSequence [ascii ''abc''] [ascii ''abd''] 0 False) \<and>
   confidence (seekSequence [ascii ''abc''] [ascii ''abd''] 0 False) \<le> 1 \<and>
   confidence (seekSequence [ascii ''abc''] [ascii ''abd''] 0 False) < 0.92"
proof -
  have n: "index (seekSequence [ascii ''abc''] [ascii ''abd''] 0 False) = None"
    by (simp add: seek_eval string_eval del: levRow.simps(1))
  note t = seekSequence_confidence[where lines = "[ascii ''abc'']" and pattern = "[ascii ''abd'']"
      and start = 0 and eof = False]
  from t have a: "0 \<le> confidence (seekSequence [ascii ''abc''] [ascii ''abd''] 0 False)"
    and b: "confidence (seekSequence [ascii ''abc''] [ascii ''abd''] 0 False) \<le> 1"
    by blast+
  from t[THEN conjunct2, THEN conjunct2]
  have c: "confidence (seekSequence [ascii ''abc''] [ascii ''abd''] 0 False) < 0.92"
    unfolding n option.case by (elim conjE)
  from n a b c show ?thesis by blast
qed


subsection \<open>C5: the end-of-file flag\<close>

text \<open>
  C5 as stated fails, in two ways. A position that qualifies at the end of the haystack
  does not keep the matcher from returning an earlier one: in the first haystack below
  the end position 1 scores above the threshold in the fuzzy pass, and yet position 0 is
  returned. And a pattern that occurs only earlier is not always found where it occurs:
  in the second haystack the pattern occurs at position 1 only, and position 0, a line
  that is equal to it up to whitespace, is returned.
\<close>

theorem seekSequence_preferEnd_counterexample:
  "length [ascii ''aaaaaaaaaaaaa'', ascii ''aaaaaaaaaaaab''] - length [ascii ''aaaaaaaaaaaaa''] = 1 \<and>
   fl 0.92 \<le> fuzzyScoreAt [ascii ''aaaaaaaaaaaaa'', ascii ''aaaaaaaaaaaab''] [ascii ''aaaaaaaaaaaaa''] 1 \<and>
   seekSequence [ascii ''aaaaaaaaaaaaa'', ascii ''aaaaaaaaaaaab''] [ascii ''aaaaaaaaaaaaa''] 0 True
     = \<lparr>index = Some 0, confidence = 1\<rparr> \<and>
   \<not> linesEqualUnder (\<lambda>s. s) [ascii ''  x'', ascii ''x'', ascii ''y''] [ascii ''x''] 0 \<and>
   linesEqualUnder (\<lambda>s. s) [ascii ''  x'', ascii ''x'', ascii ''y''] [ascii ''x''] 1 \<and>
   \<not> linesEqualUnder (\<lambda>s. s) [ascii ''  x'', ascii ''x'', ascii ''y''] [ascii ''x''] 2 \<and>
   seekSequence [ascii ''  x'', ascii ''x'', ascii ''y''] [ascii ''x''] 0 True
     = \<lparr>index = Some 0, confidence = 1\<rparr>"
  by (simp add: seek_eval string_eval linesEqualUnder_def del: levRow.simps(1))

text \<open>
  C5, amended. With the end-of-file flag set, for a non-empty pattern no longer than the
  haystack, the four strict strategies are tried at position
  \<open>haystackLength - patternLength\<close> only; if none matches there, the fuzzy pass scores
  that position first and then every position from the start index up to it, and returns
  the best-scoring one (the earliest scored among equals) if its score is at least 0.92,
  also when the end position itself scores at least 0.92. When the pattern (of at most
  \<open>2^53\<close> lines, as every array is) occurs exactly at an earlier position at or after the
  start index, an index is returned: the end position, or else the first position from
  the start index whose fuzzy score is 1, with confidence 1, which is at or before that
  occurrence and need not be it.
\<close>

theorem seekSequence_preferEnd:
  assumes "pattern \<noteq> []" and "length pattern \<le> length lines"
  shows "found (seekSequence lines pattern start True) =
           seekCascade lines pattern [length lines - length pattern]
             ((length lines - length pattern) # [start ..< length lines - length pattern])
         \<and> (\<forall>i. start \<le> i \<and> i < length lines - length pattern \<and> length pattern \<le> 2 ^ 53 \<and>
                 linesEqualUnder (\<lambda>s. s) lines pattern i \<longrightarrow>
                 (\<exists>k c. found (seekSequence lines pattern start True) = Some (k, c) \<and>
                    (k = length lines - length pattern \<or>
                     (start \<le> k \<and> k \<le> i \<and> c = 1 \<and> meanSimilarity lines pattern k = 1))))"
proof -
  have eq: "found (seekSequence lines pattern start True) =
           seekCascade lines pattern [length lines - length pattern]
             ((length lines - length pattern) # [start ..< length lines - length pattern])"
    using seek_cascade_general[OF assms, of start True]
    by (simp add: strictCandidates_def fuzzyCandidates_def)
  have "\<exists>k c. found (seekSequence lines pattern start True) = Some (k, c) \<and>
                    (k = length lines - length pattern \<or>
                     (start \<le> k \<and> k \<le> i \<and> c = 1 \<and> meanSimilarity lines pattern k = 1))"
    if "start \<le> i \<and> i < length lines - length pattern \<and> length pattern \<le> 2 ^ 53 \<and>
        linesEqualUnder (\<lambda>s. s) lines pattern i" for i
    unfolding eq using that assms(1) by (intro seekCascade_exact_earlier) simp_all
  with eq show ?thesis by blast
qed

theorem seekSequence_preferEnd_witness:
  "[ascii ''x''] \<noteq> [] \<and>
   length [ascii ''x''] \<le> length [ascii ''a'', ascii ''x'', ascii ''b'', ascii ''c''] \<and>
   (0::nat) \<le> 1 \<and> (1::nat) < length [ascii ''a'', ascii ''x'', ascii ''b'', ascii ''c''] - length [ascii ''x''] \<and>
   length [ascii ''x''] \<le> 2 ^ 53 \<and>
   linesEqualUnder (\<lambda>s. s) [ascii ''a'', ascii ''x'', ascii ''b'', ascii ''c''] [ascii ''x''] 1 \<and>
   (\<exists>k c. found (seekSequence [ascii ''a'', ascii ''x'', ascii ''b'', ascii ''c''] [ascii ''x''] 0 True)
            = Some (k, c) \<and>
          (k = 3 \<or> (0 \<le> k \<and> k \<le> 1 \<and> c = 1 \<and>
             meanSimilarity [ascii ''a'', ascii ''x'', ascii ''b'', ascii ''c''] [ascii ''x''] k = 1))) \<and>
   seekSequence [ascii ''a'', ascii ''x'', ascii ''b'', ascii ''c''] [ascii ''x''] 0 True
     = \<lparr>index = Some 1, confidence = 1\<rparr>"
proof -
  let ?L = "[ascii ''a'', ascii ''x'', ascii ''b'', ascii ''c'']"
  have h1: "[ascii ''x''] \<noteq> []" by simp
  have h2: "length [ascii ''x''] \<le> length ?L" by simp
  have h3: "(0::nat) \<le> 1 \<and> (1::nat) < length ?L - length [ascii ''x''] \<and>
      length [ascii ''x''] \<le> 2 ^ 53 \<and> linesEqualUnder (\<lambda>s. s) ?L [ascii ''x''] 1"
    by (simp add: linesEqualUnder_def)
  have e: "length ?L - length [ascii ''x''] = 3" by simp
  from seekSequence_preferEnd[OF h1 h2, of 0, THEN conjunct2, rule_format, OF h3]
  have c: "\<exists>k c. found (seekSequence ?L [ascii ''x''] 0 True) = Some (k, c) \<and>
          (k = 3 \<or> (0 \<le> k \<and> k \<le> 1 \<and> c = 1 \<and> meanSimilarity ?L [ascii ''x''] k = 1))"
    unfolding e .
  have r: "seekSequence ?L [ascii ''x''] 0 True = \<lparr>index = Some 1, confidence = 1\<rparr>"
    by (simp add: seek_eval string_eval del: levRow.simps(1))
  from h1 h2 h3 c r show ?thesis by blast
qed

subsection \<open>C8: hunks without content\<close>

text \<open>
  C8. For every diff text, parsing fails with a \<open>ParseError\<close> that carries a line number
  whenever a hunk has no content line: a hunk header (bare \<^verbatim>\<open>@@\<close> or
  \<^verbatim>\<open>@@ <context>\<close>) that comes after text which parses, and is followed by the end of
  the input or by a line that is not a content line (the next header, the end-of-file
  marker, any other line). The error names the line after the header. And
  \<open>parseDiffHunks\<close> never returns a chunk whose old and new lines are both empty; every
  error it returns carries a line number.
\<close>

theorem parseDiffHunks_empty_hunk:
  "(\<forall>pre h rest cs.
      splitLines diff = pre @ h # rest \<and> parseLoop pre 0 [] = Inr cs \<and> isHunkHeader h \<and>
      (rest = [] \<or> \<not> isContentLine (hd rest)) \<longrightarrow>
      (\<exists>msg. parseDiffHunks diff = Inl (ParseError msg (Some (length pre + 2)))))
   \<and> (\<forall>chunks. parseDiffHunks diff = Inr chunks \<longrightarrow>
         (\<forall>c \<in> set chunks. oldLines c \<noteq> [] \<or> newLines c \<noteq> []))
   \<and> (\<forall>e. parseDiffHunks diff = Inl e \<longrightarrow> (\<exists>msg n. e = ParseError msg (Some n)))"
proof (intro conjI allI impI)
  fix pre h rest cs
  assume a: "splitLines diff = pre @ h # rest \<and> parseLoop pre 0 [] = Inr cs \<and> isHunkHeader h \<and>
      (rest = [] \<or> \<not> isContentLine (hd rest))"
  then have "parseLoop (pre @ h # rest) 0 [] = parseLoop (pre @ h # rest) (length pre) cs"
    using parseLoop_append[of h pre 0 "[]" cs rest] by simp
  with a parseLoop_header_only[of h rest pre cs]
  show "\<exists>msg. parseDiffHunks diff = Inl (ParseError msg (Some (length pre + 2)))"
    by (simp add: parseDiffHunks_def)
next
  fix chunks
  assume "parseDiffHunks diff = Inr chunks"
  then show "\<forall>c \<in> set chunks. oldLines c \<noteq> [] \<or> newLines c \<noteq> []"
    using parseLoop_nonempty[of "splitLines diff" 0 "[]" chunks]
    by (simp add: parseDiffHunks_def)
next
  fix e
  assume "parseDiffHunks diff = Inl e"
  then show "\<exists>msg n. e = ParseError msg (Some n)"
    using parseLoop_error[of "splitLines diff" 0 "[]" e]
    by (simp add: parseDiffHunks_def)
qed

theorem parseDiffHunks_empty_hunk_witness:
  "splitLines (ascii ''@@ a'' @ [NL] @ ascii ''+x'' @ [NL] @ ascii ''@@ b'')
     = [ascii ''@@ a'', ascii ''+x''] @ ascii ''@@ b'' # [] \<and>
   parseLoop [ascii ''@@ a'', ascii ''+x''] 0 []
     = Inr [\<lparr>changeContext = Some (ascii ''a''), hasContextLines = False, oldLines = [],
             newLines = [ascii ''x''], isEndOfFile = False\<rparr>] \<and>
   isHunkHeader (ascii ''@@ b'') \<and>
   (\<exists>msg. parseDiffHunks (ascii ''@@ a'' @ [NL] @ ascii ''+x'' @ [NL] @ ascii ''@@ b'')
            = Inl (ParseError msg (Some 4))) \<and>
   parseDiffHunks (ascii ''@@ a'' @ [NL] @ ascii ''+x'')
     = Inr [\<lparr>changeContext = Some (ascii ''a''), hasContextLines = False, oldLines = [],
             newLines = [ascii ''x''], isEndOfFile = False\<rparr>] \<and>
   (\<exists>msg n. parseDiffHunks (ascii ''@@'' @ [NL] @ ascii ''*** End of File'')
              = Inl (ParseError msg (Some n)))"
proof -
  let ?pre = "[ascii ''@@ a'', ascii ''+x'']"
  let ?c = "\<lparr>changeContext = Some (ascii ''a''), hasContextLines = False, oldLines = [],
             newLines = [ascii ''x''], isEndOfFile = False\<rparr>"
  let ?d1 = "ascii ''@@ a'' @ [NL] @ ascii ''+x'' @ [NL] @ ascii ''@@ b''"
  have s: "splitLines ?d1 = ?pre @ ascii ''@@ b'' # []"
    by (simp add: parse_eval string_eval)
  have p: "parseLoop ?pre 0 [] = Inr [?c]"
    by (simp add: parse_eval string_eval)
  have h: "isHunkHeader (ascii ''@@ b'')"
    by (simp add: parse_eval string_eval)
  note t = parseDiffHunks_empty_hunk[of ?d1]
  from t[THEN conjunct1, rule_format, of ?pre "ascii ''@@ b''" "[]" "[?c]"] s p h
  have a: "\<exists>msg. parseDiffHunks ?d1 = Inl (ParseError msg (Some 4))"
    by (simp add: eval_nat_numeral)
  have b: "parseDiffHunks (ascii ''@@ a'' @ [NL] @ ascii ''+x'') = Inr [?c]"
    by (simp add: parse_eval string_eval)
  have "\<exists>e. parseDiffHunks (ascii ''@@'' @ [NL] @ ascii ''*** End of File'') = Inl e"
    by (simp add: parse_eval string_eval)
  with parseDiffHunks_empty_hunk[of "ascii ''@@'' @ [NL] @ ascii ''*** End of File''"]
  have c: "\<exists>msg n. parseDiffHunks (ascii ''@@'' @ [NL] @ ascii ''*** End of File'')
              = Inl (ParseError msg (Some n))"
    by blast
  from s p h a b c show ?thesis by blast
qed


subsection \<open>C7: the scope line\<close>

text \<open>
  C7. For every chunk that declares a scope context line, the applicator looks the line
  up with the sequence matcher from the current cursor (without the end-of-file flag). If
  it is not found, resolution fails with the \<open>ApplyPatchError\<close> for a missing context.
  If it is found at \<open>idx\<close>, the old lines are resolved from the cursor \<open>idx + 1\<close>, past
  the scope line, except when the chunk's first old line equals the scope line up to
  surrounding whitespace: then they are resolved from \<open>idx\<close> itself.
\<close>

theorem resolveChunk_scope:
  assumes "changeContext chunk = Some ctx"
  shows "(index (seekSequence originalLines [ctx] lineIndex False) = None \<longrightarrow>
            resolveChunk originalLines lineIndex chunk = Inl (ApplyPatchError (ContextNotFound ctx)))
         \<and> (\<forall>idx. index (seekSequence originalLines [ctx] lineIndex False) = Some idx \<longrightarrow>
               resolveChunk originalLines lineIndex chunk =
                 resolveLines originalLines
                   (if oldLines chunk \<noteq> [] \<and> trim (hd (oldLines chunk)) = trim ctx
                    then idx else idx + 1)
                   chunk)"
  using assms
  by (cases "oldLines chunk") (simp_all add: resolveChunk_def locateContext_def)

theorem resolveChunk_scope_witness:
  "changeContext \<lparr>changeContext = Some (ascii ''b''), hasContextLines = True,
      oldLines = [ascii '' b'', ascii ''c''], newLines = [ascii '' b'', ascii ''d''],
      isEndOfFile = False\<rparr> = Some (ascii ''b'') \<and>
   index (seekSequence [ascii ''a'', ascii ''b'', ascii ''c''] [ascii ''b''] 0 False) = Some 1 \<and>
   resolveChunk [ascii ''a'', ascii ''b'', ascii ''c''] 0
     \<lparr>changeContext = Some (ascii ''b''), hasContextLines = True,
      oldLines = [ascii '' b'', ascii ''c''], newLines = [ascii '' b'', ascii ''d''],
      isEndOfFile = False\<rparr>
   = resolveLines [ascii ''a'', ascii ''b'', ascii ''c''] 1
     \<lparr>changeContext = Some (ascii ''b''), hasContextLines = True,
      oldLines = [ascii '' b'', ascii ''c''], newLines = [ascii '' b'', ascii ''d''],
      isEndOfFile = False\<rparr> \<and>
   index (seekSequence [ascii ''a'', ascii ''b'', ascii ''c''] [ascii ''zzz''] 0 False) = None \<and>
   resolveChunk [ascii ''a'', ascii ''b'', ascii ''c''] 0
     \<lparr>changeContext = Some (ascii ''zzz''), hasContextLines = False,
      oldLines = [ascii ''c''], newLines = [], isEndOfFile = False\<rparr>
   = Inl (ApplyPatchError (ContextNotFound (ascii ''zzz'')))"
proof -
  let ?L = "[ascii ''a'', ascii ''b'', ascii ''c'']"
  let ?c = "\<lparr>changeContext = Some (ascii ''b''), hasContextLines = True,
      oldLines = [ascii '' b'', ascii ''c''], newLines = [ascii '' b'', ascii ''d''],
      isEndOfFile = False\<rparr>"
  let ?z = "\<lparr>changeContext = Some (ascii ''zzz''), hasContextLines = False,
      oldLines = [ascii ''c''], newLines = [], isEndOfFile = False\<rparr>"
  have h: "changeContext ?c = Some (ascii ''b'')" by simp
  have hz: "changeContext ?z = Some (ascii ''zzz'')" by simp
  have s: "index (seekSequence ?L [ascii ''b''] 0 False) = Some 1"
    by (simp add: seek_eval string_eval del: levRow.simps(1))
  have sz: "index (seekSequence ?L [ascii ''zzz''] 0 False) = None"
    by (simp add: seek_eval string_eval del: levRow.simps(1))
  have tr: "trim (hd (oldLines ?c)) = trim (ascii ''b'')"
    by (simp add: string_eval)
  from resolveChunk_scope[OF h, of ?L 0, THEN conjunct2, rule_format, OF s] tr
  have a: "resolveChunk ?L 0 ?c = resolveLines ?L 1 ?c" by simp
  from resolveChunk_scope[OF hz, of ?L 0, THEN conjunct1, rule_format, OF sz]
  have b: "resolveChunk ?L 0 ?z = Inl (ApplyPatchError (ContextNotFound (ascii ''zzz'')))" .
  from h s a sz b show ?thesis by blast
qed


subsection \<open>C6: chunks without old lines\<close>

text \<open>
  C6 as stated fails: a chunk without old lines is not inserted at the cursor. In a file
  of three lines that does not end with an empty line the addition is recorded at index
  3, the end of the file, whether the cursor is 0 (no scope line) or 1 (after the scope
  line found at 0).
\<close>

theorem resolveChunk_addition_counterexample:
  "last [ascii ''a'', ascii ''b'', ascii ''c''] = ascii ''c'' \<and>
   resolveChunk [ascii ''a'', ascii ''b'', ascii ''c''] 0
     \<lparr>changeContext = None, hasContextLines = False, oldLines = [],
      newLines = [ascii ''x''], isEndOfFile = False\<rparr>
     = Inr (\<lparr>startIndex = 3, oldLen = 0, replLines = [ascii ''x'']\<rparr>, 0) \<and>
   resolveChunk [ascii ''a'', ascii ''b'', ascii ''c''] 0
     \<lparr>changeContext = Some (ascii ''a''), hasContextLines = False, oldLines = [],
      newLines = [ascii ''x''], isEndOfFile = False\<rparr>
     = Inr (\<lparr>startIndex = 3, oldLen = 0, replLines = [ascii ''x'']\<rparr>, 1)"
  by (simp add: apply_eval seek_eval string_eval del: levRow.simps(1))

text \<open>
  C6, amended. For every chunk without old lines whose scope line, if it declares one,
  is found, resolution records a pure insertion (nothing removed) of the chunk's new
  lines at the end of the file, or just before the last line when the last line is
  empty, wherever the cursor is; the cursor stays where the scope line left it.
\<close>

theorem resolveChunk_addition:
  assumes "oldLines chunk = []"
  shows "resolveChunk originalLines lineIndex chunk =
     (case changeContext chunk of
        None \<Rightarrow>
          Inr (\<lparr>startIndex = insertionIndex originalLines, oldLen = 0, replLines = newLines chunk\<rparr>,
               lineIndex)
      | Some ctx \<Rightarrow>
          (case index (seekSequence originalLines [ctx] lineIndex False) of
             None \<Rightarrow> Inl (ApplyPatchError (ContextNotFound ctx))
           | Some idx \<Rightarrow>
               Inr (\<lparr>startIndex = insertionIndex originalLines, oldLen = 0,
                      replLines = newLines chunk\<rparr>, idx + 1)))"
  using assms
  by (simp add: resolveChunk_def locateContext_def resolveLines_addition split: option.splits)

theorem resolveChunk_addition_witness:
  "oldLines \<lparr>changeContext = Some (ascii ''a''), hasContextLines = False, oldLines = [],
      newLines = [ascii ''x''], isEndOfFile = False\<rparr> = [] \<and>
   insertionIndex [ascii ''a'', ascii ''b'', []] = 2 \<and>
   resolveChunk [ascii ''a'', ascii ''b'', []] 0
     \<lparr>changeContext = Some (ascii ''a''), hasContextLines = False, oldLines = [],
      newLines = [ascii ''x''], isEndOfFile = False\<rparr>
     = Inr (\<lparr>startIndex = 2, oldLen = 0, replLines = [ascii ''x'']\<rparr>, 1)"
proof -
  let ?c = "\<lparr>changeContext = Some (ascii ''a''), hasContextLines = False, oldLines = [],
      newLines = [ascii ''x''], isEndOfFile = False\<rparr>"
  have h: "oldLines ?c = []" by simp
  have i: "insertionIndex [ascii ''a'', ascii ''b'', []] = 2"
    by (simp add: insertionIndex_def)
  have s: "index (seekSequence [ascii ''a'', ascii ''b'', []] [ascii ''a''] 0 False) = Some 0"
    by (simp add: seek_eval string_eval del: levRow.simps(1))
  from resolveChunk_addition[OF h, of "[ascii ''a'', ascii ''b'', []]" 0] s i h
  show ?thesis by simp
qed


subsection \<open>C3: the whole-text replacement\<close>

text \<open>
  C3 as stated fails: a single chunk with no scope line and no context lines that has
  only added lines is not resolved as a whole-text replacement. Its old text, the empty
  text, occurs more than once in the file \<^verbatim>\<open>"a\n"\<close>, and the whole-text replacement
  \<open>applySimpleReplace\<close> fails on it; but application succeeds, and the added line is
  appended at the end of the file.
\<close>

theorem applyDiffToContent_simple_replace_counterexample:
  "changeContext \<lparr>changeContext = None, hasContextLines = False, oldLines = [],
      newLines = [ascii ''x''], isEndOfFile = False\<rparr> = None \<and>
   hasContextLines \<lparr>changeContext = None, hasContextLines = False, oldLines = [],
      newLines = [ascii ''x''], isEndOfFile = False\<rparr> = False \<and>
   occurrencePositions (ascii ''a'' @ [NL]) (joinLines []) = [0, 1, 2] \<and>
   applyDiffToContent plainDiff (ascii ''a'' @ [NL])
     [\<lparr>changeContext = None, hasContextLines = False, oldLines = [],
       newLines = [ascii ''x''], isEndOfFile = False\<rparr>]
     = Inr (ascii ''a'' @ [NL] @ ascii ''x'' @ [NL]) \<and>
   applySimpleReplace plainDiff (ascii ''a'' @ [NL])
     \<lparr>changeContext = None, hasContextLines = False, oldLines = [],
      newLines = [ascii ''x''], isEndOfFile = False\<rparr>
     = Inl (ApplyPatchError (MultipleOccurrences 3))"
  by (simp add: apply_eval parse_eval seek_eval string_eval upt_rec del: levRow.simps(1))

text \<open>
  C3, amended. For every update diff that is a single chunk with no scope line, no
  context lines and at least one removed line, application is the whole-text replacement
  \<open>applySimpleReplace\<close>, which matches the old text against the whole content, both with
  their line endings normalised; and for every file in which the old text occurs verbatim
  more than once, at two different positions, application fails with an
  \<open>ApplyPatchError\<close> that names the number of occurrences, and no occurrence is replaced.
\<close>

theorem applyDiffToContent_simple_replace:
  fixes d :: DiffModule and originalContent :: jstring and chunk :: UpdateChunk
  defines "normalizedContent \<equiv> normalizeToLF d originalContent"
  defines "normalizedOldText \<equiv> normalizeToLF d (joinLines (oldLines chunk))"
  assumes "changeContext chunk = None" and "\<not> hasContextLines chunk" and "oldLines chunk \<noteq> []"
  shows "applyDiffToContent d originalContent [chunk] = applySimpleReplace d originalContent chunk
    \<and> (\<forall>p1 q1 p2 q2.
          normalizedContent = p1 @ normalizedOldText @ q1 \<and>
          normalizedContent = p2 @ normalizedOldText @ q2 \<and> length p1 \<noteq> length p2 \<longrightarrow>
          1 < length (occurrencePositions normalizedContent normalizedOldText) \<and>
          applyDiffToContent d originalContent [chunk]
            = Inl (ApplyPatchError
                     (MultipleOccurrences
                        (length (occurrencePositions normalizedContent normalizedOldText)))))
    \<and> (\<forall>i. i \<in> set (occurrencePositions normalizedContent normalizedOldText) \<longleftrightarrow>
             (\<exists>pre post. normalizedContent = pre @ normalizedOldText @ post \<and> length pre = i))
    \<and> distinct (occurrencePositions normalizedContent normalizedOldText)"
proof -
  have a: "applyDiffToContent d originalContent [chunk] = applySimpleReplace d originalContent chunk"
    using assms(3-5) by (simp add: applyDiffToContent_def)
  have b: "1 < length (occurrencePositions normalizedContent normalizedOldText) \<and>
          applyDiffToContent d originalContent [chunk]
            = Inl (ApplyPatchError
                     (MultipleOccurrences (length (occurrencePositions normalizedContent normalizedOldText))))"
    if "normalizedContent = p1 @ normalizedOldText @ q1 \<and> normalizedContent = p2 @ normalizedOldText @ q2 \<and> length p1 \<noteq> length p2"
    for p1 q1 p2 q2
  proof -
    from that have e1: "normalizedContent = p1 @ normalizedOldText @ q1"
      and e2: "normalizedContent = p2 @ normalizedOldText @ q2"
      and ne: "length p1 \<noteq> length p2"
      by blast+
    from e1 e2 ne have n: "1 < length (occurrencePositions normalizedContent normalizedOldText)"
      by (rule occurrencePositions_two)
    from applySimpleReplace_multiple[of d originalContent chunk] n
    show ?thesis unfolding a normalizedContent_def normalizedOldText_def by simp
  qed
  from a b occurrencePositions_iff[of _ normalizedContent normalizedOldText] occurrencePositions_distinct[of normalizedContent normalizedOldText]
  show ?thesis by blast
qed

theorem applyDiffToContent_simple_replace_witness:
  "changeContext \<lparr>changeContext = None, hasContextLines = False, oldLines = [ascii ''a''],
      newLines = [ascii ''b''], isEndOfFile = False\<rparr> = None \<and>
   hasContextLines \<lparr>changeContext = None, hasContextLines = False, oldLines = [ascii ''a''],
      newLines = [ascii ''b''], isEndOfFile = False\<rparr> = False \<and>
   ascii ''a'' @ [NL] @ ascii ''a'' @ [NL] = [] @ ascii ''a'' @ ([NL] @ ascii ''a'' @ [NL]) \<and>
   ascii ''a'' @ [NL] @ ascii ''a'' @ [NL] = (ascii ''a'' @ [NL]) @ ascii ''a'' @ [NL] \<and>
   occurrencePositions (ascii ''a'' @ [NL] @ ascii ''a'' @ [NL]) (ascii ''a'') = [0, 2] \<and>
   applyDiffToContent plainDiff (ascii ''a'' @ [NL] @ ascii ''a'' @ [NL])
     [\<lparr>changeContext = None, hasContextLines = False, oldLines = [ascii ''a''],
       newLines = [ascii ''b''], isEndOfFile = False\<rparr>]
     = Inl (ApplyPatchError (MultipleOccurrences 2))"
proof -
  let ?c = "\<lparr>changeContext = None, hasContextLines = False, oldLines = [ascii ''a''],
      newLines = [ascii ''b''], isEndOfFile = False\<rparr>"
  let ?t = "ascii ''a'' @ [NL] @ ascii ''a'' @ [NL]"
  have h1: "changeContext ?c = None" and h2: "\<not> hasContextLines ?c" and h3: "oldLines ?c \<noteq> []"
    by simp_all
  have n: "normalizeToLF plainDiff ?t = ?t"
    "normalizeToLF plainDiff (joinLines (oldLines ?c)) = ascii ''a''"
    by (simp_all add: plainDiff_def)
  have o: "occurrencePositions ?t (ascii ''a'') = [0, 2]"
    by (simp add: occurrencePositions_def string_eval NL_def upt_rec)
  have s: "?t = [] @ ascii ''a'' @ ([NL] @ ascii ''a'' @ [NL]) \<and>
           ?t = (ascii ''a'' @ [NL]) @ ascii ''a'' @ [NL] \<and>
           length ([] :: jstring) \<noteq> length (ascii ''a'' @ [NL])"
    by (simp add: string_eval)
  from applyDiffToContent_simple_replace[OF h1 h2 h3, of plainDiff ?t, unfolded n,
      THEN conjunct2, THEN conjunct1, rule_format, OF s]
  have "applyDiffToContent plainDiff ?t [?c]
          = Inl (ApplyPatchError (MultipleOccurrences (length (occurrencePositions ?t (ascii ''a'')))))"
    by simp
  then have r: "applyDiffToContent plainDiff ?t [?c] = Inl (ApplyPatchError (MultipleOccurrences 2))"
    unfolding o by simp
  from h1 h2 s o r show ?thesis by simp
qed

subsection \<open>C10: the trailing newline\<close>

text \<open>
  C10 fails on the hunk path. Deleting the only line of the file \<^verbatim>\<open>"a\n"\<close> with the diff
  \<^verbatim>\<open>"@@ a\n-a"\<close> succeeds and produces the empty string, which does not end with a
  newline, although the original content did.
\<close>

theorem applyUpdate_empty_result:
  "applyUpdate d (ascii ''a'' @ [NL]) (ascii ''@@ a'' @ [NL] @ ascii ''-a'') = Inr [] \<and>
   endsWithNL (ascii ''a'' @ [NL]) \<and> \<not> endsWithNL []"
  by (simp add: apply_eval parse_eval seek_eval string_eval del: levRow.simps(1))


subsection \<open>C4: compaction of the mismatched lines\<close>

text \<open>
  C4. For every list of mismatches, the affected ranges carried by a
  \<open>HashlineMismatchError\<close> are the maximal contiguous inclusive ranges of the mismatched
  line numbers: together they cover exactly those line numbers, each runs from its start
  to its end, and they are in ascending order with a gap of at least one line number
  between any two of them. Lines 2, 3, 4 compact to the single range 2 to 4, and lines
  2, 3, 5, 7 to the three ranges 2 to 3, 5 to 5 and 7 to 7.
\<close>

theorem affectedRanges_maximal:
  "(\<Union>r \<in> set (affectedRanges (HashlineMismatchError H ms fileLines)).
       {rangeStart r .. rangeEnd r}) = mismatchLine ` set ms \<and>
   (\<forall>r \<in> set (affectedRanges (HashlineMismatchError H ms fileLines)).
       rangeStart r \<le> rangeEnd r) \<and>
   sorted_wrt (\<lambda>a b. rangeEnd a + 1 < rangeStart b)
     (affectedRanges (HashlineMismatchError H ms fileLines)) \<and>
   compactLineRanges [2, 3, 4] = [\<lparr>rangeStart = 2, rangeEnd = 4\<rparr>] \<and>
   compactLineRanges [2, 3, 5, 7] =
     [\<lparr>rangeStart = 2, rangeEnd = 3\<rparr>, \<lparr>rangeStart = 5, rangeEnd = 5\<rparr>,
      \<lparr>rangeStart = 7, rangeEnd = 7\<rparr>]"
proof -
  have a: "affectedRanges (HashlineMismatchError H ms fileLines)
            = compactLineRanges (map mismatchLine ms)"
    by (simp add: HashlineMismatchError_def)
  have e1: "compactLineRanges [2, 3, 4] = [\<lparr>rangeStart = 2, rangeEnd = 4\<rparr>]"
    by (simp add: compactLineRanges_def)
  have e2: "compactLineRanges [2, 3, 5, 7] =
     [\<lparr>rangeStart = 2, rangeEnd = 3\<rparr>, \<lparr>rangeStart = 5, rangeEnd = 5\<rparr>,
      \<lparr>rangeStart = 7, rangeEnd = 7\<rparr>]"
    by (simp add: compactLineRanges_def)
  from compactLineRanges_props[of "map mismatchLine ms"] e1 e2 show ?thesis
    unfolding a by simp
qed

theorem affectedRanges_maximal_witness:
  "affectedRanges (HashlineMismatchError plainHash
      [\<lparr>mismatchLine = 2, expected = ascii ''000000'', actual = ascii ''line2''\<rparr>,
       \<lparr>mismatchLine = 3, expected = ascii ''000000'', actual = ascii ''line3''\<rparr>,
       \<lparr>mismatchLine = 5, expected = ascii ''000000'', actual = ascii ''line5''\<rparr>,
       \<lparr>mismatchLine = 7, expected = ascii ''000000'', actual = ascii ''line7''\<rparr>]
      [ascii ''line1'', ascii ''line2'', ascii ''line3'', ascii ''line4'', ascii ''line5'',
       ascii ''line6'', ascii ''line7''])
     = [\<lparr>rangeStart = 2, rangeEnd = 3\<rparr>, \<lparr>rangeStart = 5, rangeEnd = 5\<rparr>,
        \<lparr>rangeStart = 7, rangeEnd = 7\<rparr>] \<and>
   ({2 .. 3} \<union> {5 .. 5} \<union> {7 .. 7} :: nat set) = {2, 3, 5, 7}"
proof -
  let ?ms = "[\<lparr>mismatchLine = 2, expected = ascii ''000000'', actual = ascii ''line2''\<rparr>,
       \<lparr>mismatchLine = 3, expected = ascii ''000000'', actual = ascii ''line3''\<rparr>,
       \<lparr>mismatchLine = 5, expected = ascii ''000000'', actual = ascii ''line5''\<rparr>,
       \<lparr>mismatchLine = 7, expected = ascii ''000000'', actual = ascii ''line7''\<rparr>]"
  let ?L = "[ascii ''line1'', ascii ''line2'', ascii ''line3'', ascii ''line4'', ascii ''line5'',
       ascii ''line6'', ascii ''line7'']"
  have e: "affectedRanges (HashlineMismatchError plainHash ?ms ?L)
     = [\<lparr>rangeStart = 2, rangeEnd = 3\<rparr>, \<lparr>rangeStart = 5, rangeEnd = 5\<rparr>,
        \<lparr>rangeStart = 7, rangeEnd = 7\<rparr>]"
    by (simp add: hashline_eval)
  from affectedRanges_maximal[of plainHash ?ms ?L, THEN conjunct1]
  have "({2 .. 3} \<union> {5 .. 5} \<union> {7 .. 7} :: nat set) = {2, 3, 5, 7}"
    unfolding e by (simp add: Un_commute Un_left_commute insert_commute)
  with e show ?thesis by simp
qed


subsection \<open>C1: all mismatches, no mutation\<close>




end
